theory Spec2Isabelle
  imports Complex_Main "HOL-Library.Word"
begin

section \<open>The download engine of HyPrism (package download, file.go)\<close>

subsection \<open>Strings and error classification\<close>

text \<open>
  Go strings are byte sequences; \<open>len\<close> counts bytes and \<open>s[i:j]\<close> is the byte
  slice, so a Go string is a \<^typ>\<open>string\<close> here, \<open>s[:n]\<close> is \<open>take n s\<close> and
  \<open>s[n:]\<close> is \<open>drop n s\<close>.
\<close>

text \<open>
  \<open>findSubstring\<close>: the loop \<open>for i := 0; i <= len(s)-len(substr); i++\<close> with its
  \<open>int\<close> counter; the bound is negative when \<open>substr\<close> is the longer string.
\<close>

function findSubstring_loop :: "string \<Rightarrow> string \<Rightarrow> int \<Rightarrow> bool" where
  "findSubstring_loop s substr i =
     (if i \<le> int (length s) - int (length substr)
      then (if take (length substr) (drop (nat i) s) = substr then True
            else findSubstring_loop s substr (i + 1))
      else False)"
  by pat_completeness auto
termination
  by (relation "measure (\<lambda>(s, substr, i). nat (int (length s) - int (length substr) + 1 - i))") auto

declare findSubstring_loop.simps [simp del]

definition findSubstring :: "string \<Rightarrow> string \<Rightarrow> bool" where
  "findSubstring s substr = findSubstring_loop s substr 0"

text \<open>
  \<open>contains\<close>, with the short-circuit order of the source. Its comment there says
  case-insensitive; the code compares the bytes as they are.
\<close>

definition contains :: "string \<Rightarrow> string \<Rightarrow> bool" where
  "contains s substr \<longleftrightarrow>
     length s \<ge> length substr \<and>
     (s = substr \<or>
      length s > length substr \<and>
        (take (length substr) s = substr \<or>
         drop (length s - length substr) s = substr \<or>
         findSubstring s substr))"

definition trustedDomains :: "string list" where
  "trustedDomains = [''github.com'', ''githubusercontent.com'', ''adoptium.net'', ''itch.zone'']"

text \<open>\<open>isTrustedSource\<close>: the \<open>range\<close> loop over the four domains, first hit returns.\<close>

fun isTrustedSource_loop :: "string \<Rightarrow> string list \<Rightarrow> bool" where
  "isTrustedSource_loop url [] = False"
| "isTrustedSource_loop url (domain # rest) =
     (if contains url domain then True else isTrustedSource_loop url rest)"

definition isTrustedSource :: "string \<Rightarrow> bool" where
  "isTrustedSource url = isTrustedSource_loop url trustedDomains"

text \<open>The decimal digit \<open>d\<close>, for \<open>d < 10\<close>.\<close>

definition digit :: "nat \<Rightarrow> char" where
  "digit d = ''0123456789'' ! d"

text \<open>The verb \<open>%d\<close> of \<open>fmt\<close>: decimal digits, with a minus sign below zero.\<close>

function show_nat :: "nat \<Rightarrow> string" where
  "show_nat n = (if n < 10 then [digit n] else show_nat (n div 10) @ [digit (n mod 10)])"
  by pat_completeness auto
termination
  by (relation "measure id") auto

declare show_nat.simps [simp del]

definition show_int :: "int \<Rightarrow> string" where
  "show_int i = (if i < 0 then ''-'' @ show_nat (nat (- i)) else show_nat (nat i))"

text \<open>
  Go's \<open>error\<close> values, with the text \<open>err.Error()\<close> returns. \<open>External\<close> is an error
  made outside this package (\<open>os\<close>, \<open>net/http\<close>, \<open>io\<close>), known by its text; the
  others are the \<open>fmt.Errorf\<close> calls of file.go, \<open>%w\<close> keeping the wrapped error.
  A nil \<open>error\<close> is \<open>None\<close>.
\<close>

datatype error =
    External string
  | DirectoryError error
  | UnexpectedStatus int
  | StartError error
  | HTTPError int
  | AttemptsFailed nat "error option"

fun Error :: "error \<Rightarrow> string" where
  "Error (External msg) = msg"
| "Error (DirectoryError err) = ''failed to create directory: '' @ Error err"
| "Error (UnexpectedStatus code) = ''unexpected status code: '' @ show_int code"
| "Error (StartError err) = ''failed to start download: '' @ Error err"
| "Error (HTTPError code) = ''HTTP error: '' @ show_int code"
| "Error (AttemptsFailed n None) =
     ''download failed after '' @ show_nat n @ '' attempts: %!w(<nil>)''"
| "Error (AttemptsFailed n (Some err)) =
     ''download failed after '' @ show_nat n @ '' attempts: '' @ Error err"

fun isCertError :: "error option \<Rightarrow> bool" where
  "isCertError None = False"
| "isCertError (Some err) =
     (let errStr = Error err
      in contains errStr ''certificate'' \<or> contains errStr ''x509'' \<or> contains errStr ''tls'')"

subsection \<open>The outside world of one transfer\<close>

text \<open>
  \<open>int64\<close> values (\<open>resumeFrom\<close>, \<open>downloaded\<close>, \<open>total\<close>, \<open>ContentLength\<close>) are
  64-bit words: \<open>+\<close> wraps, \<open>sint\<close> reads the signed value, \<open><s\<close> compares signed.
  Clock readings and durations are nanoseconds, as integers (a \<open>time.Duration\<close>
  overflows only after 292 years).
\<close>

type_synonym int64 = "64 word"
type_synonym bytes = string
type_synonym header = "string \<times> string"

text \<open>Regular files by path. Nothing but the transfer writes them while it runs.\<close>

type_synonym filesystem = "string \<Rightarrow> bytes option"

datatype client = SharedClient | InsecureClient

text \<open>
  The arguments of one call of the progress callback. The two \<open>float64\<close> arguments are
  kept as the integer operands they are computed from:
  \<open>progress = float64(downloaded) / float64(total) * 100 * progressWeight\<close> as
  \<open>(downloaded, total, progressWeight)\<close>, and
  \<open>formatSpeed(float64(downloaded - lastDownloaded) / time.Since(lastUpdate).Seconds())\<close>
  as (bytes since the last report, nanoseconds since the last report).
  \<open>currentFile_arg\<close> is the path whose \<open>filepath.Base\<close> is passed.
\<close>

record callback_args =
  stage_arg :: string
  progress_arg :: "int64 \<times> int64 \<times> rat"
  message_arg :: string
  currentFile_arg :: string
  speed_arg :: "int64 \<times> int"
  downloaded_arg :: int64
  total_arg :: int64

text \<open>
  What a transfer does to the outside, in order. \<open>MkdirAll d\<close> is
  \<open>os.MkdirAll(filepath.Dir(d), 0755)\<close>; \<open>Write p b\<close> records the bytes \<open>b\<close> that
  \<open>file.Write\<close> stored in \<open>p\<close>; \<open>Callback a n\<close> is a call of the progress callback with
  arguments \<open>a\<close>, made while the file being written holds \<open>n\<close> bytes;
  \<open>SimpleCallback downloaded total speed\<close> is a call of the callback of \<open>DownloadFile\<close>,
  \<open>speed\<close> being \<open>None\<close> for the empty string and otherwise the operands
  (bytes, nanoseconds) of \<open>formatSpeed(float64(downloaded) / elapsed)\<close>.
  An event records the call, also when the call fails.
\<close>

datatype event =
    MkdirAll string
  | Stat string
  | Do client string "header list"
  | CloseBody
  | OpenAppend string
  | Create string
  | Write string bytes
  | Callback callback_args nat
  | SimpleCallback int64 int64 "(int64 \<times> int) option"
  | CloseFile string
  | Rename string string

datatype read_end = EOF | ReadError error

text \<open>
  One \<open>resp.Body.Read(buf)\<close> and what surrounds it: the bytes \<open>buf[:n]\<close> it delivered
  (at most \<open>32 * 1024\<close>), whether \<open>file.Write\<close> fails on them (\<open>Some (m, err)\<close>: after
  storing \<open>m\<close> bytes), and the clock readings taken if the loop body gets that far: at
  the test \<open>time.Since(lastUpdate) >= 100*time.Millisecond\<close>, at the second
  \<open>time.Since(lastUpdate)\<close>, and at \<open>lastUpdate = time.Now()\<close>.
\<close>

record read_step =
  data :: bytes
  write_fault :: "(nat \<times> error) option"
  clock_check :: int
  clock_speed :: int
  clock_reset :: int

text \<open>
  A response body is a sequence of reads that returned a nil error, ended by the read
  that returned a non-nil one: both clients carry \<open>Timeout: downloadTimeout\<close> and the
  request a context with that deadline, so a read fails when the deadline passes.
\<close>

datatype body = Last read_step read_end | Next read_step body

record response =
  StatusCode :: int
  ContentLength :: int64
  Body :: body

text \<open>
  What the world answers during one attempt: the result of \<open>os.MkdirAll\<close>, of
  \<open>http.NewRequestWithContext\<close>, of \<open>client.Do\<close> on the request with the given headers,
  a failure of \<open>os.OpenFile\<close> / \<open>os.Create\<close> for a reason of the system's, the clock at
  \<open>lastUpdate := time.Now()\<close> before the loop, and a failure of \<open>os.Rename\<close>.
\<close>

record attempt_env =
  mkdir_err :: "error option"
  request_err :: "error option"
  do_result :: "header list \<Rightarrow> error + response"
  open_err :: "error option"
  clock_start :: int
  rename_err :: "error option"

subsection \<open>The \<open>os\<close> calls on the file system\<close>

text \<open>\<open>os.Stat(path)\<close> followed by \<open>stat.Size()\<close>; \<open>None\<close> when \<open>Stat\<close> fails.\<close>

definition Stat_Size :: "filesystem \<Rightarrow> string \<Rightarrow> int64 option" where
  "Stat_Size fs path = map_option (\<lambda>content. of_nat (length content)) (fs path)"

text \<open>
  \<open>os.OpenFile(path, O_APPEND|O_WRONLY, 0644)\<close>: there is no \<open>O_CREATE\<close>, so a missing
  file is an error. The result is the content that writes are appended to.
\<close>

definition OpenFile_append :: "error option \<Rightarrow> filesystem \<Rightarrow> string \<Rightarrow> error + bytes" where
  "OpenFile_append fault fs path =
     (case fault of
        Some err \<Rightarrow> Inl err
      | None \<Rightarrow>
          (case fs path of
             None \<Rightarrow> Inl (External (''open '' @ path @ '': no such file or directory''))
           | Some content \<Rightarrow> Inr content))"

text \<open>\<open>os.Create(path)\<close>: creates or truncates.\<close>

definition Create_file :: "error option \<Rightarrow> filesystem \<Rightarrow> string \<Rightarrow> error + filesystem" where
  "Create_file fault fs path =
     (case fault of Some err \<Rightarrow> Inl err | None \<Rightarrow> Inr (fs(path \<mapsto> [])))"

text \<open>
  \<open>os.Rename(old, new)\<close>: replaces \<open>new\<close> by \<open>old\<close> in one step, or fails and leaves
  both paths as they were.
\<close>

definition Rename_file :: "error option \<Rightarrow> filesystem \<Rightarrow> string \<Rightarrow> string \<Rightarrow> error + filesystem" where
  "Rename_file fault fs old new =
     (case fault of
        Some err \<Rightarrow> Inl err
      | None \<Rightarrow>
          (case fs old of
             None \<Rightarrow> Inl (External (''rename '' @ old @ '' '' @ new @ '': no such file or directory''))
           | Some content \<Rightarrow> Inr ((fs(old := None))(new \<mapsto> content))))"


subsection \<open>A single transfer attempt\<close>

text \<open>
  The locals the loop of an attempt changes, with the content of the open temp file and
  the effects so far.
\<close>

record transfer_state =
  file_content :: bytes
  downloaded :: int64
  lastUpdate :: int
  lastDownloaded :: int64
  effects :: "event list"

text \<open>
  The body of the loop for one read that delivered \<open>data r\<close>: the block under
  \<open>if n > 0\<close>. \<open>100*time.Millisecond\<close> is 100000000 ns. The source's \<open>total\<close> is
  \<open>totalBytes\<close> here, and \<open>file_content\<close> is what the open \<open>file\<close> holds.
\<close>

definition attemptDownload_chunk ::
  "string \<Rightarrow> string \<Rightarrow> rat \<Rightarrow> bool \<Rightarrow> int64 \<Rightarrow> read_step \<Rightarrow> transfer_state
     \<Rightarrow> error option \<times> transfer_state" where
  "attemptDownload_chunk dest stage progressWeight callback totalBytes r st =
     (if 0 < length (data r) then
        (case write_fault r of
           Some (m, writeErr) \<Rightarrow>
             (Some writeErr,
              st\<lparr>file_content := file_content st @ take m (data r),
                 effects := effects st @ [Write (dest @ ''.tmp'') (take m (data r))]\<rparr>)
         | None \<Rightarrow>
             (let st1 = st\<lparr>file_content := file_content st @ data r,
                            effects := effects st @ [Write (dest @ ''.tmp'') (data r)],
                            downloaded := downloaded st + of_nat (length (data r))\<rparr>
              in if clock_check r - lastUpdate st1 \<ge> 100000000 \<and> callback then
                   (None,
                    st1\<lparr>effects := effects st1 @
                          [Callback
                             \<lparr>stage_arg = stage,
                              progress_arg = (downloaded st1, totalBytes, progressWeight),
                              message_arg = ''Downloading...'',
                              currentFile_arg = dest,
                              speed_arg = (downloaded st1 - lastDownloaded st1,
                                           clock_speed r - lastUpdate st1),
                              downloaded_arg = downloaded st1,
                              total_arg = totalBytes\<rparr>
                             (length (file_content st1))],
                        lastUpdate := clock_reset r,
                        lastDownloaded := downloaded st1\<rparr>)
                 else (None, st1)))
      else (None, st))"

text \<open>The \<open>for\<close> loop of \<open>attemptDownload\<close>: read, write, report, until a read fails.\<close>

fun attemptDownload_loop ::
  "string \<Rightarrow> string \<Rightarrow> rat \<Rightarrow> bool \<Rightarrow> int64 \<Rightarrow> body \<Rightarrow> transfer_state
     \<Rightarrow> error option \<times> transfer_state" where
  "attemptDownload_loop dest stage progressWeight callback totalBytes (Next r rest) st =
     (case attemptDownload_chunk dest stage progressWeight callback totalBytes r st of
        (Some writeErr, st') \<Rightarrow> (Some writeErr, st')
      | (None, st') \<Rightarrow> attemptDownload_loop dest stage progressWeight callback totalBytes rest st')"
| "attemptDownload_loop dest stage progressWeight callback totalBytes (Last r readErr) st =
     (case attemptDownload_chunk dest stage progressWeight callback totalBytes r st of
        (Some writeErr, st') \<Rightarrow> (Some writeErr, st')
      | (None, st') \<Rightarrow>
          (case readErr of EOF \<Rightarrow> (None, st') | ReadError err \<Rightarrow> (Some err, st')))"

text \<open>
  \<open>attemptDownload\<close> from \<open>// Handle resume\<close> to its end: open the temp file, compute
  \<open>total\<close>, run the loop, close, rename. The deferred \<open>file.Close()\<close> and
  \<open>resp.Body.Close()\<close> run at every return.
\<close>

definition attemptDownload_transfer ::
  "string \<Rightarrow> string \<Rightarrow> rat \<Rightarrow> bool \<Rightarrow> attempt_env \<Rightarrow> response \<Rightarrow> int64 \<Rightarrow> filesystem
     \<Rightarrow> event list \<Rightarrow> error option \<times> filesystem \<times> event list" where
  "attemptDownload_transfer dest stage progressWeight callback env resp resumeFrom0 fs tr =
     (let tempDest = dest @ ''.tmp'';
          opened =
            (if StatusCode resp = 206 then
               (case OpenFile_append (open_err env) fs tempDest of
                  Inl err \<Rightarrow> Inl err
                | Inr content \<Rightarrow> Inr (fs, content))
             else
               (case Create_file (open_err env) fs tempDest of
                  Inl err \<Rightarrow> Inl err
                | Inr fs' \<Rightarrow> Inr (fs', [])));
          resumeFrom = (if StatusCode resp = 206 then resumeFrom0 else 0);
          tr1 = tr @ [if StatusCode resp = 206 then OpenAppend tempDest else Create tempDest]
      in case opened of
           Inl err \<Rightarrow> (Some err, fs, tr1 @ [CloseBody])
         | Inr (fs1, content) \<Rightarrow>
             (let totalBytes = ContentLength resp + resumeFrom;
                  downloaded0 = resumeFrom;
                  st0 = \<lparr>file_content = content, downloaded = downloaded0,
                         lastUpdate = clock_start env, lastDownloaded = downloaded0,
                         effects = tr1\<rparr>
              in case attemptDownload_loop dest stage progressWeight callback totalBytes (Body resp) st0 of
                   (Some err, st) \<Rightarrow>
                     (Some err, fs1(tempDest \<mapsto> file_content st),
                      effects st @ [CloseFile tempDest, CloseBody])
                 | (None, st) \<Rightarrow>
                     (let fs2 = fs1(tempDest \<mapsto> file_content st);
                          tr2 = effects st @ [CloseFile tempDest, Rename tempDest dest]
                      in case Rename_file (rename_err env) fs2 tempDest dest of
                           Inl err \<Rightarrow> (Some err, fs2, tr2 @ [CloseFile tempDest, CloseBody])
                         | Inr fs3 \<Rightarrow> (None, fs3, tr2 @ [CloseFile tempDest, CloseBody]))))"

text \<open>
  \<open>attemptDownload\<close>, with the client \<open>createOptimizedClient() = sharedClient\<close>. The result is the returned error
  (\<open>None\<close> for nil), the file system it leaves and what it did.
\<close>

definition attemptDownload ::
  "string \<Rightarrow> string \<Rightarrow> string \<Rightarrow> rat \<Rightarrow> bool \<Rightarrow> attempt_env \<Rightarrow> filesystem
     \<Rightarrow> error option \<times> filesystem \<times> event list" where
  "attemptDownload dest url stage progressWeight callback env fs =
     (let tempDest = dest @ ''.tmp''
      in case mkdir_err env of
           Some err \<Rightarrow> (Some (DirectoryError err), fs, [MkdirAll dest])
         | None \<Rightarrow>
             (let resumeFrom = (case Stat_Size fs tempDest of Some sz \<Rightarrow> sz | None \<Rightarrow> 0)
              in case request_err env of
                   Some err \<Rightarrow> (Some err, fs, [MkdirAll dest, Stat tempDest])
                 | None \<Rightarrow>
                     (let headers =
                            [(''Accept'', ''*/*''),
                             (''Accept-Encoding'', ''identity''),
                             (''Connection'', ''keep-alive''),
                             (''User-Agent'', ''HyPrism/1.0'')] @
                            (if 0 <s resumeFrom
                             then [(''Range'', ''bytes='' @ show_int (sint resumeFrom) @ ''-'')]
                             else []);
                          tr = [MkdirAll dest, Stat tempDest, Do SharedClient url headers]
                      in case do_result env headers of
                           Inl err \<Rightarrow> (Some err, fs, tr)
                         | Inr resp \<Rightarrow>
                             if StatusCode resp \<noteq> 200 \<and> StatusCode resp \<noteq> 206
                             then (Some (UnexpectedStatus (StatusCode resp)), fs,
                                   tr @ [CloseBody])
                             else attemptDownload_transfer dest stage progressWeight callback
                                    env resp resumeFrom fs tr)))"

text \<open>
  \<open>attemptDownloadInsecure\<close> is a second copy of the procedure in the source, and is
  translated from its own text.
\<close>

definition attemptDownloadInsecure_chunk ::
  "string \<Rightarrow> string \<Rightarrow> rat \<Rightarrow> bool \<Rightarrow> int64 \<Rightarrow> read_step \<Rightarrow> transfer_state
     \<Rightarrow> error option \<times> transfer_state" where
  "attemptDownloadInsecure_chunk dest stage progressWeight callback totalBytes r st =
     (if 0 < length (data r) then
        (case write_fault r of
           Some (m, writeErr) \<Rightarrow>
             (Some writeErr,
              st\<lparr>file_content := file_content st @ take m (data r),
                 effects := effects st @ [Write (dest @ ''.tmp'') (take m (data r))]\<rparr>)
         | None \<Rightarrow>
             (let st1 = st\<lparr>file_content := file_content st @ data r,
                            effects := effects st @ [Write (dest @ ''.tmp'') (data r)],
                            downloaded := downloaded st + of_nat (length (data r))\<rparr>
              in if clock_check r - lastUpdate st1 \<ge> 100000000 \<and> callback then
                   (None,
                    st1\<lparr>effects := effects st1 @
                          [Callback
                             \<lparr>stage_arg = stage,
                              progress_arg = (downloaded st1, totalBytes, progressWeight),
                              message_arg = ''Downloading...'',
                              currentFile_arg = dest,
                              speed_arg = (downloaded st1 - lastDownloaded st1,
                                           clock_speed r - lastUpdate st1),
                              downloaded_arg = downloaded st1,
                              total_arg = totalBytes\<rparr>
                             (length (file_content st1))],
                        lastUpdate := clock_reset r,
                        lastDownloaded := downloaded st1\<rparr>)
                 else (None, st1)))
      else (None, st))"

text \<open>The \<open>for\<close> loop of \<open>attemptDownloadInsecure\<close>: read, write, report, until a read fails.\<close>

fun attemptDownloadInsecure_loop ::
  "string \<Rightarrow> string \<Rightarrow> rat \<Rightarrow> bool \<Rightarrow> int64 \<Rightarrow> body \<Rightarrow> transfer_state
     \<Rightarrow> error option \<times> transfer_state" where
  "attemptDownloadInsecure_loop dest stage progressWeight callback totalBytes (Next r rest) st =
     (case attemptDownloadInsecure_chunk dest stage progressWeight callback totalBytes r st of
        (Some writeErr, st') \<Rightarrow> (Some writeErr, st')
      | (None, st') \<Rightarrow> attemptDownloadInsecure_loop dest stage progressWeight callback totalBytes rest st')"
| "attemptDownloadInsecure_loop dest stage progressWeight callback totalBytes (Last r readErr) st =
     (case attemptDownloadInsecure_chunk dest stage progressWeight callback totalBytes r st of
        (Some writeErr, st') \<Rightarrow> (Some writeErr, st')
      | (None, st') \<Rightarrow>
          (case readErr of EOF \<Rightarrow> (None, st') | ReadError err \<Rightarrow> (Some err, st')))"

text \<open>
  \<open>attemptDownloadInsecure\<close> from \<open>// Handle resume\<close> to its end: open the temp file, compute
  \<open>total\<close>, run the loop, close, rename. The deferred \<open>file.Close()\<close> and
  \<open>resp.Body.Close()\<close> run at every return.
\<close>

definition attemptDownloadInsecure_transfer ::
  "string \<Rightarrow> string \<Rightarrow> rat \<Rightarrow> bool \<Rightarrow> attempt_env \<Rightarrow> response \<Rightarrow> int64 \<Rightarrow> filesystem
     \<Rightarrow> event list \<Rightarrow> error option \<times> filesystem \<times> event list" where
  "attemptDownloadInsecure_transfer dest stage progressWeight callback env resp resumeFrom0 fs tr =
     (let tempDest = dest @ ''.tmp'';
          opened =
            (if StatusCode resp = 206 then
               (case OpenFile_append (open_err env) fs tempDest of
                  Inl err \<Rightarrow> Inl err
                | Inr content \<Rightarrow> Inr (fs, content))
             else
               (case Create_file (open_err env) fs tempDest of
                  Inl err \<Rightarrow> Inl err
                | Inr fs' \<Rightarrow> Inr (fs', [])));
          resumeFrom = (if StatusCode resp = 206 then resumeFrom0 else 0);
          tr1 = tr @ [if StatusCode resp = 206 then OpenAppend tempDest else Create tempDest]
      in case opened of
           Inl err \<Rightarrow> (Some err, fs, tr1 @ [CloseBody])
         | Inr (fs1, content) \<Rightarrow>
             (let totalBytes = ContentLength resp + resumeFrom;
                  downloaded0 = resumeFrom;
                  st0 = \<lparr>file_content = content, downloaded = downloaded0,
                         lastUpdate = clock_start env, lastDownloaded = downloaded0,
                         effects = tr1\<rparr>
              in case attemptDownloadInsecure_loop dest stage progressWeight callback totalBytes (Body resp) st0 of
                   (Some err, st) \<Rightarrow>
                     (Some err, fs1(tempDest \<mapsto> file_content st),
                      effects st @ [CloseFile tempDest, CloseBody])
                 | (None, st) \<Rightarrow>
                     (let fs2 = fs1(tempDest \<mapsto> file_content st);
                          tr2 = effects st @ [CloseFile tempDest, Rename tempDest dest]
                      in case Rename_file (rename_err env) fs2 tempDest dest of
                           Inl err \<Rightarrow> (Some err, fs2, tr2 @ [CloseFile tempDest, CloseBody])
                         | Inr fs3 \<Rightarrow> (None, fs3, tr2 @ [CloseFile tempDest, CloseBody]))))"

text \<open>
  \<open>attemptDownloadInsecure\<close>, with the client \<open>insecureClient\<close>. The result is the returned error
  (\<open>None\<close> for nil), the file system it leaves and what it did.
\<close>

definition attemptDownloadInsecure ::
  "string \<Rightarrow> string \<Rightarrow> string \<Rightarrow> rat \<Rightarrow> bool \<Rightarrow> attempt_env \<Rightarrow> filesystem
     \<Rightarrow> error option \<times> filesystem \<times> event list" where
  "attemptDownloadInsecure dest url stage progressWeight callback env fs =
     (let tempDest = dest @ ''.tmp''
      in case mkdir_err env of
           Some err \<Rightarrow> (Some (DirectoryError err), fs, [MkdirAll dest])
         | None \<Rightarrow>
             (let resumeFrom = (case Stat_Size fs tempDest of Some sz \<Rightarrow> sz | None \<Rightarrow> 0)
              in case request_err env of
                   Some err \<Rightarrow> (Some err, fs, [MkdirAll dest, Stat tempDest])
                 | None \<Rightarrow>
                     (let headers =
                            [(''Accept'', ''*/*''),
                             (''Accept-Encoding'', ''identity''),
                             (''Connection'', ''keep-alive''),
                             (''User-Agent'', ''HyPrism/1.0'')] @
                            (if 0 <s resumeFrom
                             then [(''Range'', ''bytes='' @ show_int (sint resumeFrom) @ ''-'')]
                             else []);
                          tr = [MkdirAll dest, Stat tempDest, Do InsecureClient url headers]
                      in case do_result env headers of
                           Inl err \<Rightarrow> (Some err, fs, tr)
                         | Inr resp \<Rightarrow>
                             if StatusCode resp \<noteq> 200 \<and> StatusCode resp \<noteq> 206
                             then (Some (UnexpectedStatus (StatusCode resp)), fs,
                                   tr @ [CloseBody])
                             else attemptDownloadInsecure_transfer dest stage progressWeight callback
                                    env resp resumeFrom fs tr)))"

subsection \<open>The retry loop\<close>

definition maxRetries :: nat where
  "maxRetries = 3"

text \<open>\<open>retryDelay = 2 * time.Second\<close>, in nanoseconds.\<close>

definition retryDelay :: int where
  "retryDelay = 2 * 1000000000"

text \<open>
  What \<open>DownloadWithProgress\<close> does, in order: an attempt with one of the two clients
  (with the error it returned and what it did), a line printed, a \<open>time.Sleep\<close>.
\<close>

datatype run_event =
    Attempt client "error option" "event list"
  | Printed string
  | Sleep int

text \<open>
  The world of a whole download gives the world of each attempt: of the verified
  attempt made in iteration \<open>attempt\<close>, and of the insecure attempt made there.
\<close>

type_synonym world = "client \<Rightarrow> nat \<Rightarrow> attempt_env"

text \<open>
  The body of the \<open>for\<close> loop of \<open>DownloadWithProgress\<close> in iteration \<open>attempt\<close>:
  \<open>Inl\<close> is a \<open>return\<close>, \<open>Inr\<close> goes on to the next iteration with the new
  \<open>lastErr\<close>.
\<close>

definition DownloadWithProgress_body ::
  "string \<Rightarrow> string \<Rightarrow> string \<Rightarrow> rat \<Rightarrow> bool \<Rightarrow> world \<Rightarrow> nat \<Rightarrow> filesystem \<Rightarrow> run_event list
     \<Rightarrow> (error option \<times> filesystem \<times> run_event list)
       + (error option \<times> filesystem \<times> run_event list)" where
  "DownloadWithProgress_body dest url stage progressWeight callback w attempt fs hist =
     (case attemptDownload dest url stage progressWeight callback (w SharedClient attempt) fs of
        (None, fs1, tr) \<Rightarrow> Inl (None, fs1, hist @ [Attempt SharedClient None tr])
      | (Some err, fs1, tr) \<Rightarrow>
          (let hist1 = hist @
                 [Attempt SharedClient (Some err) tr,
                  Printed (''Download attempt '' @ show_nat attempt @ '' failed: '' @
                           Error err @ [CHR 0x0A])];
               fallback =
                 (if attempt = 1 \<and> isCertError (Some err) \<and> isTrustedSource url then
                    (let hist2 = hist1 @
                           [Printed (''Certificate verification failed, retrying with '' @
                                     ''insecure client for trusted source...'' @ [CHR 0x0A])]
                     in case attemptDownloadInsecure dest url stage progressWeight callback
                               (w InsecureClient attempt) fs1 of
                          (None, fs2, tr2) \<Rightarrow>
                            Inl (None, fs2, hist2 @
                                 [Attempt InsecureClient None tr2,
                                  Printed (''Download successful with insecure client'' @
                                           [CHR 0x0A])])
                        | (Some err2, fs2, tr2) \<Rightarrow>
                            Inr (Some err2, fs2, hist2 @ [Attempt InsecureClient (Some err2) tr2]))
                  else Inr (Some err, fs1, hist1))
           in case fallback of
                Inl res \<Rightarrow> Inl res
              | Inr (lastErr, fs3, hist3) \<Rightarrow>
                  Inr (lastErr, fs3,
                       if attempt < maxRetries then hist3 @ [Sleep retryDelay] else hist3)))"

function DownloadWithProgress_loop ::
  "string \<Rightarrow> string \<Rightarrow> string \<Rightarrow> rat \<Rightarrow> bool \<Rightarrow> world \<Rightarrow> nat \<Rightarrow> error option \<Rightarrow> filesystem
     \<Rightarrow> run_event list \<Rightarrow> error option \<times> filesystem \<times> run_event list" where
  "DownloadWithProgress_loop dest url stage progressWeight callback w attempt lastErr fs hist =
     (if attempt \<le> maxRetries then
        (case DownloadWithProgress_body dest url stage progressWeight callback w attempt fs hist of
           Inl res \<Rightarrow> res
         | Inr (lastErr', fs', hist') \<Rightarrow>
             DownloadWithProgress_loop dest url stage progressWeight callback w
               (attempt + 1) lastErr' fs' hist')
      else (Some (AttemptsFailed maxRetries lastErr), fs, hist))"
  by pat_completeness auto
termination
  by (relation "measure (\<lambda>(dest, url, stage, progressWeight, callback, w, attempt, rest).
        maxRetries + 1 - attempt)") auto

declare DownloadWithProgress_loop.simps [simp del]

definition DownloadWithProgress ::
  "string \<Rightarrow> string \<Rightarrow> string \<Rightarrow> rat \<Rightarrow> bool \<Rightarrow> world \<Rightarrow> filesystem
     \<Rightarrow> error option \<times> filesystem \<times> run_event list" where
  "DownloadWithProgress dest url stage progressWeight callback w fs =
     DownloadWithProgress_loop dest url stage progressWeight callback w 1 None fs []"

subsection \<open>Speed formatting\<close>

text \<open>
  The argument of \<open>formatSpeed\<close> is a finite \<open>float64\<close>, taken as the rational number it
  is; its callers pass the quotient of a byte count by a positive time. The divisions by
  1024 and by 1024 * 1024 are exact in \<open>float64\<close> on the branches that make them.
  \<open>Sprintf_f prec x\<close> is \<open>fmt.Sprintf("%.<prec>f", x)\<close>: the value rounded to \<open>prec\<close>
  decimals, to nearest and, when halfway, to the even digit.
\<close>

definition round_half_even :: "rat \<Rightarrow> int" where
  "round_half_even x =
     (let f = \<lfloor>x\<rfloor>; r = x - of_int f
      in if r < 1 / 2 then f else if 1 / 2 < r then f + 1 else if even f then f else f + 1)"

definition Sprintf_f :: "nat \<Rightarrow> rat \<Rightarrow> string" where
  "Sprintf_f prec x =
     (let scaled = nat (round_half_even (\<bar>x\<bar> * 10 ^ prec));
          digits = show_nat scaled;
          padded = replicate (Suc prec - length digits) (CHR ''0'') @ digits;
          whole = take (length padded - prec) padded;
          frac = drop (length padded - prec) padded
      in (if x < 0 then ''-'' else '''') @ whole @ (if prec = 0 then '''' else ''.'' @ frac))"

definition formatSpeed :: "rat \<Rightarrow> string" where
  "formatSpeed bytesPerSec =
     (if bytesPerSec < 1024 then Sprintf_f 0 bytesPerSec @ '' B/s''
      else if bytesPerSec < 1024 * 1024 then Sprintf_f 1 (bytesPerSec / 1024) @ '' KB/s''
      else Sprintf_f 1 (bytesPerSec / (1024 * 1024)) @ '' MB/s'')"

subsection \<open>\<open>DownloadFile\<close>\<close>

record simple_state =
  out_content :: bytes
  out_downloaded :: int64
  out_effects :: "event list"

text \<open>
  The block under \<open>if n > 0\<close> in the loop of \<open>DownloadFile\<close>. The reading
  \<open>clock_check r\<close> is the clock at \<open>time.Since(startTime)\<close>; \<open>elapsed > 0\<close> holds when
  the duration is positive.
\<close>

definition DownloadFile_chunk ::
  "string \<Rightarrow> bool \<Rightarrow> int64 \<Rightarrow> int \<Rightarrow> read_step \<Rightarrow> simple_state \<Rightarrow> error option \<times> simple_state" where
  "DownloadFile_chunk dest progressCallback totalBytes startTime r st =
     (if 0 < length (data r) then
        (case write_fault r of
           Some (m, writeErr) \<Rightarrow>
             (Some writeErr,
              st\<lparr>out_content := out_content st @ take m (data r),
                 out_effects := out_effects st @ [Write dest (take m (data r))]\<rparr>)
         | None \<Rightarrow>
             (let st1 = st\<lparr>out_content := out_content st @ data r,
                            out_effects := out_effects st @ [Write dest (data r)],
                            out_downloaded := out_downloaded st + of_nat (length (data r))\<rparr>
              in if progressCallback then
                   (None,
                    st1\<lparr>out_effects := out_effects st1 @
                          [SimpleCallback (out_downloaded st1) totalBytes
                             (if 0 < clock_check r - startTime
                              then Some (out_downloaded st1, clock_check r - startTime)
                              else None)]\<rparr>)
                 else (None, st1)))
      else (None, st))"

fun DownloadFile_loop ::
  "string \<Rightarrow> bool \<Rightarrow> int64 \<Rightarrow> int \<Rightarrow> body \<Rightarrow> simple_state \<Rightarrow> error option \<times> simple_state" where
  "DownloadFile_loop dest progressCallback totalBytes startTime (Next r rest) st =
     (case DownloadFile_chunk dest progressCallback totalBytes startTime r st of
        (Some writeErr, st') \<Rightarrow> (Some writeErr, st')
      | (None, st') \<Rightarrow> DownloadFile_loop dest progressCallback totalBytes startTime rest st')"
| "DownloadFile_loop dest progressCallback totalBytes startTime (Last r readErr) st =
     (case DownloadFile_chunk dest progressCallback totalBytes startTime r st of
        (Some writeErr, st') \<Rightarrow> (Some writeErr, st')
      | (None, st') \<Rightarrow>
          (case readErr of EOF \<Rightarrow> (None, st') | ReadError err \<Rightarrow> (Some err, st')))"

text \<open>
  \<open>DownloadFile(ctx, url, dest, progressCallback)\<close>; what the context does (a
  cancellation is a failed request or read) is part of the world.
\<close>

definition DownloadFile ::
  "string \<Rightarrow> string \<Rightarrow> bool \<Rightarrow> attempt_env \<Rightarrow> filesystem
     \<Rightarrow> error option \<times> filesystem \<times> event list" where
  "DownloadFile url dest progressCallback env fs =
     (case mkdir_err env of
        Some err \<Rightarrow> (Some (DirectoryError err), fs, [MkdirAll dest])
      | None \<Rightarrow>
          (case request_err env of
             Some err \<Rightarrow> (Some err, fs, [MkdirAll dest])
           | None \<Rightarrow>
               (let headers = [(''Accept'', ''*/*'')];
                    tr = [MkdirAll dest, Do SharedClient url headers]
                in case do_result env headers of
                     Inl err \<Rightarrow> (Some (StartError err), fs, tr)
                   | Inr resp \<Rightarrow>
                       if StatusCode resp \<noteq> 200
                       then (Some (HTTPError (StatusCode resp)), fs, tr @ [CloseBody])
                       else
                         (case Create_file (open_err env) fs dest of
                            Inl err \<Rightarrow> (Some err, fs, tr @ [Create dest, CloseBody])
                          | Inr fs1 \<Rightarrow>
                              (let totalBytes = ContentLength resp;
                                   st0 = \<lparr>out_content = [], out_downloaded = 0,
                                          out_effects = tr @ [Create dest]\<rparr>
                               in case DownloadFile_loop dest progressCallback totalBytes
                                         (clock_start env) (Body resp) st0 of
                                    (err, st) \<Rightarrow>
                                      (err, fs1(dest \<mapsto> out_content st),
                                       out_effects st @ [CloseFile dest, CloseBody]))))))"


subsection \<open>Notions used to state the properties\<close>

text \<open>An event with its client replaced: only \<open>Do\<close> names a client.\<close>

fun with_client :: "client \<Rightarrow> event \<Rightarrow> event" where
  "with_client c (Do c' u hs) = Do c u hs"
| "with_client c e = e"

text \<open>
  A body is read to a clean end of stream when no \<open>file.Write\<close> on the way fails (a
  read that delivered nothing writes nothing) and the last read returns \<open>io.EOF\<close>.
\<close>

definition write_ok :: "read_step \<Rightarrow> bool" where
  "write_ok r \<longleftrightarrow> data r = [] \<or> write_fault r = None"

fun clean_EOF :: "body \<Rightarrow> bool" where
  "clean_EOF (Last r e) \<longleftrightarrow> write_ok r \<and> e = EOF"
| "clean_EOF (Next r b) \<longleftrightarrow> write_ok r \<and> clean_EOF b"

text \<open>All the bytes a body delivers.\<close>

fun body_data :: "body \<Rightarrow> bytes" where
  "body_data (Last r e) = data r"
| "body_data (Next r b) = data r @ body_data b"

text \<open>
  The bytes a transfer loop has stored when it stops: everything up to the end of the
  body, or up to the write that failed (with the part that write stored).
\<close>

fun stored :: "body \<Rightarrow> bytes" where
  "stored (Last r e) =
     (case write_fault r of Some (m, err) \<Rightarrow> take m (data r) | None \<Rightarrow> data r)"
| "stored (Next r b) =
     (case write_fault r of
        Some (m, err) \<Rightarrow> if data r = [] then stored b else take m (data r)
      | None \<Rightarrow> data r @ stored b)"

text \<open>
  The clock never runs backwards: the readings of a body, in the order they are taken,
  starting from the reading \<open>t\<close> before the loop. \<open>end_clock\<close> is the last of them.
\<close>

fun clock_monotone :: "int \<Rightarrow> body \<Rightarrow> bool" where
  "clock_monotone t (Last r e) \<longleftrightarrow>
     t \<le> clock_check r \<and> clock_check r \<le> clock_speed r \<and> clock_speed r \<le> clock_reset r"
| "clock_monotone t (Next r b) \<longleftrightarrow>
     t \<le> clock_check r \<and> clock_check r \<le> clock_speed r \<and> clock_speed r \<le> clock_reset r
     \<and> clock_monotone (clock_reset r) b"

fun end_clock :: "body \<Rightarrow> int" where
  "end_clock (Last r e) = clock_reset r"
| "end_clock (Next r b) = end_clock b"

text \<open>Kinds of events of an attempt.\<close>

fun is_Rename :: "event \<Rightarrow> bool" where
  "is_Rename (Rename old new) = True"
| "is_Rename e = False"

fun is_Do :: "event \<Rightarrow> bool" where
  "is_Do (Do c u hs) = True"
| "is_Do e = False"

fun is_Callback :: "event \<Rightarrow> bool" where
  "is_Callback (Callback a n) = True"
| "is_Callback e = False"

fun is_transfer_event :: "event \<Rightarrow> bool" where
  "is_transfer_event (Write p bs) = True"
| "is_transfer_event (Callback a n) = True"
| "is_transfer_event e = False"

text \<open>The file an event works on, if any.\<close>

fun file_of :: "event \<Rightarrow> string option" where
  "file_of (Stat p) = Some p"
| "file_of (OpenAppend p) = Some p"
| "file_of (Create p) = Some p"
| "file_of (Write p bs) = Some p"
| "file_of (CloseFile p) = Some p"
| "file_of (Rename old new) = Some old"
| "file_of e = None"

text \<open>
  What the callback calls of a trace report, in order: \<open>downloaded\<close>, \<open>total\<close>, and
  the size of the file at the time of the call.
\<close>

fun reports :: "event list \<Rightarrow> (int64 \<times> int64 \<times> nat) list" where
  "reports [] = []"
| "reports (Callback a n # evs) = (downloaded_arg a, total_arg a, n) # reports evs"
| "reports (ev # evs) = reports evs"

text \<open>
  \<open>stat.Size()\<close> is an \<open>int64\<close>: the file at the path, if there is one, is shorter
  than \<open>2^63\<close> bytes.
\<close>

definition fits_int64 :: "filesystem \<Rightarrow> string \<Rightarrow> bool" where
  "fits_int64 fs path = (case fs path of None \<Rightarrow> True | Some content \<Rightarrow> length content < 2 ^ 63)"

text \<open>Kinds of events of a whole download.\<close>

fun succeeded :: "run_event \<Rightarrow> bool" where
  "succeeded (Attempt c None tr) = True"
| "succeeded ev = False"

fun is_Attempt_by :: "client \<Rightarrow> run_event \<Rightarrow> bool" where
  "is_Attempt_by c (Attempt c' err tr) = (c' = c)"
| "is_Attempt_by c ev = False"

fun is_Sleep :: "run_event \<Rightarrow> bool" where
  "is_Sleep (Sleep d) = True"
| "is_Sleep ev = False"

fun is_Printed :: "run_event \<Rightarrow> bool" where
  "is_Printed (Printed line) = True"
| "is_Printed ev = False"

text \<open>The attempts of a run, in order: the client and the error returned.\<close>

fun attempts_of :: "run_event list \<Rightarrow> (client \<times> error option) list" where
  "attempts_of [] = []"
| "attempts_of (Attempt c err tr # evs) = (c, err) # attempts_of evs"
| "attempts_of (ev # evs) = attempts_of evs"

subsection \<open>Example worlds\<close>

text \<open>A read that delivers \<open>bs\<close>, with the clock at \<open>t\<close> and no write failure.\<close>

definition chunk_at :: "bytes \<Rightarrow> int \<Rightarrow> read_step" where
  "chunk_at bs t = \<lparr>data = bs, write_fault = None,
                    clock_check = t, clock_speed = t, clock_reset = t\<rparr>"

text \<open>The connection is refused.\<close>

definition env_refused :: attempt_env where
  "env_refused = \<lparr>mkdir_err = None, request_err = None,
     do_result = (\<lambda>hs. Inl (External ''dial tcp: connection refused'')),
     open_err = None, clock_start = 0, rename_err = None\<rparr>"

text \<open>The certificate of the server is not accepted.\<close>

definition env_cert :: attempt_env where
  "env_cert = \<lparr>mkdir_err = None, request_err = None,
     do_result = (\<lambda>hs. Inl (External
        ''tls: failed to verify certificate: x509: certificate signed by unknown authority'')),
     open_err = None, clock_start = 0, rename_err = None\<rparr>"

text \<open>The server answers with the given status and an empty body.\<close>

definition env_status :: "int \<Rightarrow> attempt_env" where
  "env_status code = \<lparr>mkdir_err = None, request_err = None,
     do_result = (\<lambda>hs. Inr \<lparr>StatusCode = code, ContentLength = 0,
                             Body = Last (chunk_at [] 0) EOF\<rparr>),
     open_err = None, clock_start = 0, rename_err = None\<rparr>"

text \<open>Five bytes of ten arrive after 150 ms, then the connection breaks.\<close>

definition env_midfail :: attempt_env where
  "env_midfail = \<lparr>mkdir_err = None, request_err = None,
     do_result = (\<lambda>hs. Inr \<lparr>StatusCode = 200, ContentLength = 10,
        Body = Next (chunk_at ''hello'' 150000000)
                 (Last (chunk_at [] 160000000) (ReadError (External ''unexpected EOF'')))\<rparr>),
     open_err = None, clock_start = 0, rename_err = None\<rparr>"

text \<open>
  The server sends five bytes in one read after 150 ms: as the whole content (200), and
  as the rest of a partial content (206).
\<close>

definition env_full :: attempt_env where
  "env_full = \<lparr>mkdir_err = None, request_err = None,
     do_result = (\<lambda>hs. Inr \<lparr>StatusCode = 200, ContentLength = 5,
                             Body = Last (chunk_at ''hello'' 150000000) EOF\<rparr>),
     open_err = None, clock_start = 0, rename_err = None\<rparr>"

definition env_partial :: attempt_env where
  "env_partial = \<lparr>mkdir_err = None, request_err = None,
     do_result = (\<lambda>hs. Inr \<lparr>StatusCode = 206, ContentLength = 5,
                             Body = Last (chunk_at ''hello'' 150000000) EOF\<rparr>),
     open_err = None, clock_start = 0, rename_err = None\<rparr>"

text \<open>Six bytes in three reads, after 50, 150 and 160 ms.\<close>

definition env_three :: attempt_env where
  "env_three = \<lparr>mkdir_err = None, request_err = None,
     do_result = (\<lambda>hs. Inr \<lparr>StatusCode = 200, ContentLength = 6,
        Body = Next (chunk_at ''ab'' 50000000)
                 (Next (chunk_at ''cd'' 150000000) (Last (chunk_at ''ef'' 160000000) EOF))\<rparr>),
     open_err = None, clock_start = 0, rename_err = None\<rparr>"

text \<open>The connection is refused in iterations 1 and 3; the certificate fails in 2.\<close>

definition world_cert_second :: world where
  "world_cert_second = (\<lambda>c n. if n = 2 then env_cert else env_refused)"

text \<open>The certificate check fails with the verified client; the insecure client gets the file.\<close>

definition world_cert :: world where
  "world_cert = (\<lambda>c n. if c = InsecureClient then env_status 200 else env_cert)"

section \<open>Properties\<close>

subsection \<open>Trusted-host matching\<close>

lemma findSubstring_loop_iff:
  "0 \<le> i \<Longrightarrow> findSubstring_loop s sub i \<longleftrightarrow>
     (\<exists>j. nat i \<le> j \<and> j + length sub \<le> length s \<and> take (length sub) (drop j s) = sub)"
proof (induction s sub i rule: findSubstring_loop.induct)
  case (1 s substr i)
  show ?case
  proof (cases "i \<le> int (length s) - int (length substr)")
    case False
    then have "\<not> findSubstring_loop s substr i"
      by (simp add: findSubstring_loop.simps [of s substr i])
    moreover from False "1.prems"
    have "\<not> (\<exists>j. nat i \<le> j \<and> j + length substr \<le> length s
               \<and> take (length substr) (drop j s) = substr)"
      by auto
    ultimately show ?thesis by simp
  next
    case in_range: True
    show ?thesis
    proof (cases "take (length substr) (drop (nat i) s) = substr")
      case True
      with in_range have "findSubstring_loop s substr i"
        by (simp add: findSubstring_loop.simps [of s substr i])
      moreover from in_range "1.prems" have "nat i + length substr \<le> length s"
        by linarith
      ultimately show ?thesis using True by blast
    next
      case False
      with in_range have "findSubstring_loop s substr i = findSubstring_loop s substr (i + 1)"
        by (simp add: findSubstring_loop.simps [of s substr i])
      also have "\<dots> \<longleftrightarrow> (\<exists>j. nat (i + 1) \<le> j \<and> j + length substr \<le> length s
                   \<and> take (length substr) (drop j s) = substr)"
        using "1.IH" [OF in_range False] "1.prems" by simp
      also have "\<dots> \<longleftrightarrow> (\<exists>j. nat i \<le> j \<and> j + length substr \<le> length s
                   \<and> take (length substr) (drop j s) = substr)"
      proof -
        have "nat (i + 1) = Suc (nat i)" using "1.prems" by simp
        moreover have "j \<noteq> nat i" if "take (length substr) (drop j s) = substr" for j
          using that False by auto
        ultimately show ?thesis
          by (metis Suc_leI le_neq_implies_less Suc_leD)
      qed
      finally show ?thesis .
    qed
  qed
qed

lemma occurs_at_iff:
  "(\<exists>j. j + length sub \<le> length s \<and> take (length sub) (drop j s) = sub)
     \<longleftrightarrow> (\<exists>p q. s = p @ sub @ q)"
proof
  assume "\<exists>j. j + length sub \<le> length s \<and> take (length sub) (drop j s) = sub"
  then obtain j where j: "take (length sub) (drop j s) = sub" by blast
  have "drop j s = take (length sub) (drop j s) @ drop (length sub) (drop j s)"
    by (simp only: append_take_drop_id)
  then have "s = take j s @ take (length sub) (drop j s) @ drop (length sub) (drop j s)"
    by (metis append_take_drop_id)
  with j show "\<exists>p q. s = p @ sub @ q" by metis
next
  assume "\<exists>p q. s = p @ sub @ q"
  then obtain p q where s: "s = p @ sub @ q" by blast
  then have "length p + length sub \<le> length s \<and> take (length sub) (drop (length p) s) = sub"
    by simp
  then show "\<exists>j. j + length sub \<le> length s \<and> take (length sub) (drop j s) = sub" by blast
qed

lemma findSubstring_iff: "findSubstring s sub \<longleftrightarrow> (\<exists>p q. s = p @ sub @ q)"
  unfolding findSubstring_def
  using findSubstring_loop_iff [of 0 s sub] occurs_at_iff [of sub s] by simp

lemma contains_iff: "contains s sub \<longleftrightarrow> (\<exists>p q. s = p @ sub @ q)"
proof
  assume c: "contains s sub"
  show "\<exists>p q. s = p @ sub @ q"
  proof (cases "s = sub")
    case True
    then have "s = [] @ sub @ []" by simp
    then show ?thesis by blast
  next
    case False
    with c consider "take (length sub) s = sub"
      | "drop (length s - length sub) s = sub" | "findSubstring s sub"
      by (auto simp: contains_def)
    then show ?thesis
    proof cases
      case 1
      then have "s = [] @ sub @ drop (length sub) s"
        by (metis append_Nil append_take_drop_id)
      then show ?thesis by blast
    next
      case 2
      then have "s = take (length s - length sub) s @ sub @ []"
        by (metis append_Nil2 append_take_drop_id)
      then show ?thesis by blast
    next
      case 3
      then show ?thesis by (simp add: findSubstring_iff)
    qed
  qed
next
  assume "\<exists>p q. s = p @ sub @ q"
  then obtain p q where s: "s = p @ sub @ q" by blast
  then have len: "length sub \<le> length s" by simp
  show "contains s sub"
  proof (cases "s = sub")
    case True
    then show ?thesis by (simp add: contains_def)
  next
    case False
    with s len have "length sub < length s"
      by (cases p; cases q) auto
    moreover have "findSubstring s sub"
      using s by (auto simp: findSubstring_iff)
    ultimately show ?thesis by (simp add: contains_def)
  qed
qed

lemma isTrustedSource_loop_iff:
  "isTrustedSource_loop url ds \<longleftrightarrow> (\<exists>d \<in> set ds. contains url d)"
  by (induction ds) auto

text \<open>
  C6. For every URL, \<open>isTrustedSource\<close> is true exactly when one of the four allow-list
  strings occurs in the URL as a contiguous, case-sensitive (byte for byte) substring;
  and \<open>contains s substr\<close> holds exactly when \<open>substr\<close> occurs in \<open>s\<close>.
\<close>

theorem isTrustedSource_substring:
  "(isTrustedSource url \<longleftrightarrow>
      (\<exists>p q. url = p @ ''github.com'' @ q) \<or>
      (\<exists>p q. url = p @ ''githubusercontent.com'' @ q) \<or>
      (\<exists>p q. url = p @ ''adoptium.net'' @ q) \<or>
      (\<exists>p q. url = p @ ''itch.zone'' @ q))
   \<and> (contains s substr \<longleftrightarrow> (\<exists>p q. s = p @ substr @ q))"
proof
  show "isTrustedSource url \<longleftrightarrow>
      (\<exists>p q. url = p @ ''github.com'' @ q) \<or>
      (\<exists>p q. url = p @ ''githubusercontent.com'' @ q) \<or>
      (\<exists>p q. url = p @ ''adoptium.net'' @ q) \<or>
      (\<exists>p q. url = p @ ''itch.zone'' @ q)"
    unfolding isTrustedSource_def isTrustedSource_loop_iff trustedDomains_def
    by (simp only: contains_iff list.set bex_simps insert_iff empty_iff
          ball_simps HOL.simp_thms ex_disj_distrib)
next
  show "contains s substr \<longleftrightarrow> (\<exists>p q. s = p @ substr @ q)"
    by (rule contains_iff)
qed

subsection \<open>The text of a speed\<close>

lemma show_nat_small: "n < 10 \<Longrightarrow> show_nat n = [digit n]"
  by (simp add: show_nat.simps [of n])

lemma show_nat_big: "10 \<le> n \<Longrightarrow> show_nat n = show_nat (n div 10) @ [digit (n mod 10)]"
  by (simp add: show_nat.simps [of n])

lemma length_show_nat: "Suc 0 \<le> length (show_nat n)"
  by (cases "n < 10") (simp_all add: show_nat_small show_nat_big)

lemma Sprintf_f_0:
  "Sprintf_f 0 x = (if x < 0 then ''-'' else '''') @ show_nat (nat (round_half_even \<bar>x\<bar>))"
proof -
  have "Suc 0 - length (show_nat n) = 0" for n
    using length_show_nat [of n] by simp
  then show ?thesis
    by (simp add: Sprintf_f_def Let_def)
qed

lemma one_decimal:
  "(let padded = replicate (Suc 1 - length (show_nat n)) (CHR ''0'') @ show_nat n
    in take (length padded - 1) padded @ ''.'' @ drop (length padded - 1) padded)
   = show_nat (n div 10) @ ''.'' @ [digit (n mod 10)]"
proof (cases "n < 10")
  case True
  then show ?thesis
    by (simp add: show_nat_small Let_def digit_def)
next
  case False
  then have big: "show_nat n = show_nat (n div 10) @ [digit (n mod 10)]"
    by (simp add: show_nat_big)
  have "Suc 0 \<le> length (show_nat (n div 10))" by (rule length_show_nat)
  then have "Suc 1 - length (show_nat n) = 0"
    by (simp add: big)
  then show ?thesis
    by (simp add: Let_def big)
qed

lemma Sprintf_f_1:
  "0 \<le> x \<Longrightarrow> Sprintf_f 1 x =
     show_nat (nat (round_half_even (x * 10)) div 10) @ ''.'' @
     [digit (nat (round_half_even (x * 10)) mod 10)]"
  using one_decimal [of "nat (round_half_even (x * 10))"]
  by (simp add: Sprintf_f_def Let_def)

lemma round_half_even_near: "\<bar>of_int (round_half_even x) - x\<bar> \<le> 1 / 2"
proof -
  have "of_int \<lfloor>x\<rfloor> \<le> x" "x < of_int \<lfloor>x\<rfloor> + 1" by linarith+
  then show ?thesis
    by (auto simp: round_half_even_def Let_def)
qed

lemma formatSpeed_shape: "formatSpeed rate =
    (if rate < 1024
     then (if rate < 0 then ''-'' else '''') @ show_nat (nat (round_half_even \<bar>rate\<bar>)) @ '' B/s''
     else if rate < 1024 * 1024
     then show_nat (nat (round_half_even (rate / 1024 * 10)) div 10) @ ''.'' @
          [digit (nat (round_half_even (rate / 1024 * 10)) mod 10)] @ '' KB/s''
     else show_nat (nat (round_half_even (rate / (1024 * 1024) * 10)) div 10) @ ''.'' @
          [digit (nat (round_half_even (rate / (1024 * 1024) * 10)) mod 10)] @ '' MB/s'')"
proof -
  consider "rate < 1024" | "1024 \<le> rate" "rate < 1024 * 1024" | "1024 * 1024 \<le> rate"
    by linarith
  then show ?thesis
  proof cases
    case 1
    then show ?thesis by (simp add: formatSpeed_def Sprintf_f_0)
  next
    case 2
    then have "0 \<le> rate / 1024" by simp
    from Sprintf_f_1 [OF this] 2 show ?thesis by (simp add: formatSpeed_def)
  next
    case 3
    then have "0 \<le> rate / (1024 * 1024)" by simp
    from Sprintf_f_1 [OF this] 3 show ?thesis by (simp add: formatSpeed_def)
  qed
qed

text \<open>
  C8. \<open>formatSpeed\<close> prints a rate below 1024 rounded to a whole number and followed by
  \<open>B/s\<close>, a rate from 1024 and below 1024 * 1024 divided by 1024, with one digit after
  the point, followed by \<open>KB/s\<close>, and any other rate divided by 1024 * 1024, with one
  digit after the point, followed by \<open>MB/s\<close>; the number printed is within half a unit
  of the last digit. So 500 gives \<open>500 B/s\<close>, 2048 gives \<open>2.0 KB/s\<close> and
  5 * 1024 * 1024 gives \<open>5.0 MB/s\<close>.
\<close>

theorem formatSpeed_units:
  "formatSpeed rate =
    (if rate < 1024
     then (if rate < 0 then ''-'' else '''') @ show_nat (nat (round_half_even \<bar>rate\<bar>)) @ '' B/s''
     else if rate < 1024 * 1024
     then show_nat (nat (round_half_even (rate / 1024 * 10)) div 10) @ ''.'' @
          [digit (nat (round_half_even (rate / 1024 * 10)) mod 10)] @ '' KB/s''
     else show_nat (nat (round_half_even (rate / (1024 * 1024) * 10)) div 10) @ ''.'' @
          [digit (nat (round_half_even (rate / (1024 * 1024) * 10)) mod 10)] @ '' MB/s'')
   \<and> \<bar>of_int (round_half_even x) - x\<bar> \<le> 1 / 2
   \<and> formatSpeed 500 = ''500 B/s''
   \<and> formatSpeed 2048 = ''2.0 KB/s''
   \<and> formatSpeed (5 * 1024 * 1024) = ''5.0 MB/s''"
proof -
  have "formatSpeed 500 = ''500 B/s''" by code_simp
  moreover have "formatSpeed 2048 = ''2.0 KB/s''" by code_simp
  moreover have "formatSpeed (5 * 1024 * 1024) = ''5.0 MB/s''" by code_simp
  ultimately show ?thesis
    using formatSpeed_shape [of rate] round_half_even_near [of x] by simp
qed

subsection \<open>What one attempt does\<close>

lemma chunk_effects:
  "attemptDownload_chunk dest stage pw cb tot r st = (err, st') \<Longrightarrow>
     \<exists>new. effects st' = effects st @ new \<and> list_all is_transfer_event new"
  by (auto simp: attemptDownload_chunk_def Let_def split: if_splits option.splits prod.splits)

lemma loop_effects:
  "attemptDownload_loop dest stage pw cb tot b st = (err, st') \<Longrightarrow>
     \<exists>new. effects st' = effects st @ new \<and> list_all is_transfer_event new"
proof (induction b arbitrary: st)
  case (Last r e)
  then show ?case
    by (auto split: prod.splits option.splits read_end.splits dest: chunk_effects)
next
  case (Next r b)
  obtain e1 st1 where c: "attemptDownload_chunk dest stage pw cb tot r st = (e1, st1)"
    by (cases "attemptDownload_chunk dest stage pw cb tot r st")
  from chunk_effects [OF c] obtain new1 where
    n1: "effects st1 = effects st @ new1" "list_all is_transfer_event new1" by blast
  show ?case
  proof (cases e1)
    case (Some a)
    with Next.prems c n1 show ?thesis by auto
  next
    case None
    with Next.prems c have "attemptDownload_loop dest stage pw cb tot b st1 = (err, st')"
      by simp
    from Next.IH [OF this] obtain new2 where
      "effects st' = effects st1 @ new2" "list_all is_transfer_event new2" by blast
    with n1 have "effects st' = effects st @ (new1 @ new2) \<and> list_all is_transfer_event (new1 @ new2)"
      by simp
    then show ?thesis by blast
  qed
qed

lemma chunk_error_iff:
  "fst (attemptDownload_chunk dest stage pw cb tot r st) = None \<longleftrightarrow> write_ok r"
  by (auto simp: attemptDownload_chunk_def write_ok_def Let_def split: option.splits prod.splits)

lemma loop_error_iff:
  "fst (attemptDownload_loop dest stage pw cb tot b st) = None \<longleftrightarrow> clean_EOF b"
proof (induction b arbitrary: st)
  case (Last r e)
  show ?case
    using chunk_error_iff [of dest stage pw cb tot r st]
    by (cases "attemptDownload_chunk dest stage pw cb tot r st"; cases e)
       (auto split: option.splits)
next
  case (Next r b)
  show ?case
    using chunk_error_iff [of dest stage pw cb tot r st] Next.IH
    by (cases "attemptDownload_chunk dest stage pw cb tot r st")
       (auto split: option.splits)
qed


lemma transfer_fs:
  assumes "attemptDownload_transfer dest stage pw cb env resp rf fs tr = (err, fs', tr')"
  shows "(\<forall>p. p \<noteq> dest @ ''.tmp'' \<longrightarrow> p \<noteq> dest \<longrightarrow> fs' p = fs p)
       \<and> (err \<noteq> None \<longrightarrow> fs' dest = fs dest)"
  using assms
  unfolding attemptDownload_transfer_def Let_def
  by (auto simp: OpenFile_append_def Create_file_def Rename_file_def
        split: if_splits sum.splits option.splits prod.splits)

lemma attemptDownload_fs:
  assumes "attemptDownload dest url stage pw cb env fs = (err, fs', tr)"
  shows "(\<forall>p. p \<noteq> dest @ ''.tmp'' \<longrightarrow> p \<noteq> dest \<longrightarrow> fs' p = fs p)
       \<and> (err \<noteq> None \<longrightarrow> fs' dest = fs dest)"
  using assms
  unfolding attemptDownload_def Let_def
  by (auto split: if_splits sum.splits option.splits dest: transfer_fs)


lemma transfer_event_not_Rename: "is_transfer_event e \<Longrightarrow> \<not> is_Rename e"
  by (cases e) simp_all

lemma transfer_event_not_Do: "is_transfer_event e \<Longrightarrow> \<not> is_Do e"
  by (cases e) simp_all

lemma transfer_events_no_Rename: "list_all is_transfer_event new \<Longrightarrow> filter is_Rename new = []"
  by (induction new) (auto dest: transfer_event_not_Rename)

lemma transfer_events_no_Do: "list_all is_transfer_event new \<Longrightarrow> filter is_Do new = []"
  by (induction new) (auto dest: transfer_event_not_Do)

lemma transfer_renames:
  assumes run: "attemptDownload_transfer dest stage pw cb env resp rf fs tr = (err, fs', tr')"
    and tr: "filter is_Rename tr = []"
  shows "(filter is_Rename tr' = [Rename (dest @ ''.tmp'') dest] \<and> clean_EOF (Body resp)
            \<and> (\<exists>pre. tr' = pre @ [CloseFile (dest @ ''.tmp''), Rename (dest @ ''.tmp'') dest,
                                   CloseFile (dest @ ''.tmp''), CloseBody])
            \<and> (err \<noteq> None \<longrightarrow> rename_err env \<noteq> None))
       \<or> (filter is_Rename tr' = [] \<and> err \<noteq> None)"
proof -
  let ?tmp = "dest @ ''.tmp''"
  let ?ev = "if StatusCode resp = 206 then OpenAppend ?tmp else Create ?tmp"
  have ev: "\<not> is_Rename ?ev" by simp
  show ?thesis
  proof (cases "if StatusCode resp = 206
                then (case OpenFile_append (open_err env) fs ?tmp of
                        Inl e \<Rightarrow> Inl e | Inr content \<Rightarrow> Inr (fs, content))
                else (case Create_file (open_err env) fs ?tmp of
                        Inl e \<Rightarrow> Inl e | Inr fs1 \<Rightarrow> Inr (fs1, []))")
    case (Inl e)
    with run tr show ?thesis
      unfolding attemptDownload_transfer_def Let_def by (auto split: if_splits)
  next
    case (Inr opened)
    obtain fs1 content where opened: "opened = (fs1, content)" by (cases opened)
    let ?st0 = "\<lparr>file_content = content,
        downloaded = (if StatusCode resp = 206 then rf else 0),
        lastUpdate = clock_start env,
        lastDownloaded = (if StatusCode resp = 206 then rf else 0),
        effects = tr @ [?ev]\<rparr>"
    let ?tot = "ContentLength resp + (if StatusCode resp = 206 then rf else 0)"
    obtain lerr st where
      loop: "attemptDownload_loop dest stage pw cb ?tot (Body resp) ?st0 = (lerr, st)"
      by (cases "attemptDownload_loop dest stage pw cb ?tot (Body resp) ?st0")
    from loop_effects [OF loop] obtain new where
      new: "effects st = (tr @ [?ev]) @ new" "list_all is_transfer_event new"
      by auto
    have nor: "filter is_Rename (effects st) = []"
      using tr ev transfer_events_no_Rename [OF new(2)] by (simp add: new(1))
    have clean: "lerr = None \<longleftrightarrow> clean_EOF (Body resp)"
      using loop_error_iff [of dest stage pw cb ?tot "Body resp" ?st0] loop by simp
    show ?thesis
    proof (cases lerr)
      case (Some e)
      with run Inr opened loop nor show ?thesis
        unfolding attemptDownload_transfer_def Let_def by (auto split: if_splits)
    next
      case None
      with run Inr opened loop nor clean show ?thesis
        unfolding attemptDownload_transfer_def Let_def
        by (auto simp: Rename_file_def split: option.splits sum.splits if_splits)
    qed
  qed
qed

lemma attemptDownload_renames:
  assumes run: "attemptDownload dest url stage pw cb env fs = (err, fs', tr)"
  shows "(filter is_Rename tr = [Rename (dest @ ''.tmp'') dest]
            \<and> (\<exists>hs resp. do_result env hs = Inr resp \<and> clean_EOF (Body resp))
            \<and> (\<exists>pre. tr = pre @ [CloseFile (dest @ ''.tmp''), Rename (dest @ ''.tmp'') dest,
                                  CloseFile (dest @ ''.tmp''), CloseBody])
            \<and> (err \<noteq> None \<longrightarrow> rename_err env \<noteq> None))
       \<or> (filter is_Rename tr = [] \<and> err \<noteq> None)"
  using run
  unfolding attemptDownload_def Let_def
  by (auto split: if_splits sum.splits option.splits dest!: transfer_renames)

lemma transfer_Do:
  assumes run: "attemptDownload_transfer dest stage pw cb env resp rf fs tr = (err, fs', tr')"
  shows "filter is_Do tr' = filter is_Do tr"
proof -
  let ?tmp = "dest @ ''.tmp''"
  let ?ev = "if StatusCode resp = 206 then OpenAppend ?tmp else Create ?tmp"
  have ev: "\<not> is_Do ?ev" by simp
  show ?thesis
  proof (cases "if StatusCode resp = 206
                then (case OpenFile_append (open_err env) fs ?tmp of
                        Inl e \<Rightarrow> Inl e | Inr content \<Rightarrow> Inr (fs, content))
                else (case Create_file (open_err env) fs ?tmp of
                        Inl e \<Rightarrow> Inl e | Inr fs1 \<Rightarrow> Inr (fs1, []))")
    case (Inl e)
    with run show ?thesis
      unfolding attemptDownload_transfer_def Let_def by (auto split: if_splits)
  next
    case (Inr opened)
    obtain fs1 content where opened: "opened = (fs1, content)" by (cases opened)
    let ?st0 = "\<lparr>file_content = content,
        downloaded = (if StatusCode resp = 206 then rf else 0),
        lastUpdate = clock_start env,
        lastDownloaded = (if StatusCode resp = 206 then rf else 0),
        effects = tr @ [?ev]\<rparr>"
    let ?tot = "ContentLength resp + (if StatusCode resp = 206 then rf else 0)"
    obtain lerr st where
      loop: "attemptDownload_loop dest stage pw cb ?tot (Body resp) ?st0 = (lerr, st)"
      by (cases "attemptDownload_loop dest stage pw cb ?tot (Body resp) ?st0")
    from loop_effects [OF loop] obtain new where
      new: "effects st = (tr @ [?ev]) @ new" "list_all is_transfer_event new"
      by auto
    have nod: "filter is_Do (effects st) = filter is_Do tr"
      using ev transfer_events_no_Do [OF new(2)] by (simp add: new(1))
    from run Inr opened loop nod show ?thesis
      unfolding attemptDownload_transfer_def Let_def
      by (auto split: option.splits sum.splits if_splits)
  qed
qed

lemma attemptDownload_Do:
  assumes run: "attemptDownload dest url stage pw cb env fs = (err, fs', tr)"
  shows "filter is_Do tr =
     (if mkdir_err env = None \<and> request_err env = None
      then [Do SharedClient url
              ([(''Accept'', ''*/*''), (''Accept-Encoding'', ''identity''),
                (''Connection'', ''keep-alive''), (''User-Agent'', ''HyPrism/1.0'')] @
               (case Stat_Size fs (dest @ ''.tmp'') of
                  None \<Rightarrow> []
                | Some sz \<Rightarrow>
                    if 0 <s sz then [(''Range'', ''bytes='' @ show_int (sint sz) @ ''-'')]
                    else []))]
      else [])"
  using run
  unfolding attemptDownload_def Let_def
  by (auto split: if_splits sum.splits option.splits dest!: transfer_Do)

lemma attemptDownload_Do_shared:
  assumes run: "attemptDownload dest url stage pw cb env fs = (err, fs', tr)"
  shows "Do c u hs \<in> set tr \<Longrightarrow> c = SharedClient"
proof -
  assume "Do c u hs \<in> set tr"
  then have "Do c u hs \<in> set (filter is_Do tr)" by simp
  then show ?thesis
    unfolding attemptDownload_Do [OF run] by (auto split: if_splits)
qed

subsection \<open>The two attempt procedures do the same\<close>

lemma attemptDownloadInsecure_chunk_eq:
  "attemptDownloadInsecure_chunk = attemptDownload_chunk"
  by (intro ext) (simp add: attemptDownloadInsecure_chunk_def attemptDownload_chunk_def)

lemma attemptDownloadInsecure_loop_eq:
  "attemptDownloadInsecure_loop = attemptDownload_loop"
proof (intro ext)
  fix dest stage pw cb tot b st
  show "attemptDownloadInsecure_loop dest stage pw cb tot b st
      = attemptDownload_loop dest stage pw cb tot b st"
    by (induction b arbitrary: st)
       (simp_all add: attemptDownloadInsecure_chunk_eq split: prod.splits option.splits)
qed

lemma attemptDownloadInsecure_transfer_eq:
  "attemptDownloadInsecure_transfer = attemptDownload_transfer"
  unfolding attemptDownloadInsecure_transfer_def attemptDownload_transfer_def
    attemptDownloadInsecure_loop_eq
  by (rule refl)

lemma chunk_relabel:
  "attemptDownload_chunk dest stage pw cb tot r (st\<lparr>effects := map (with_client c) (effects st)\<rparr>)
   = (case attemptDownload_chunk dest stage pw cb tot r st of
        (err, st') \<Rightarrow> (err, st'\<lparr>effects := map (with_client c) (effects st')\<rparr>))"
  by (simp add: attemptDownload_chunk_def Let_def split: option.splits prod.splits)

lemma loop_relabel:
  "attemptDownload_loop dest stage pw cb tot b (st\<lparr>effects := map (with_client c) (effects st)\<rparr>)
   = (case attemptDownload_loop dest stage pw cb tot b st of
        (err, st') \<Rightarrow> (err, st'\<lparr>effects := map (with_client c) (effects st')\<rparr>))"
proof (induction b arbitrary: st)
  case (Last r e)
  show ?case
    by (simp add: chunk_relabel split: prod.splits option.splits read_end.splits)
next
  case (Next r b)
  show ?case
    by (simp add: chunk_relabel Next.IH split: prod.splits option.splits)
qed

lemma transfer_relabel:
  "attemptDownload_transfer dest stage pw cb env resp rf fs (map (with_client c) tr)
   = (case attemptDownload_transfer dest stage pw cb env resp rf fs tr of
        (err, fs', tr') \<Rightarrow> (err, fs', map (with_client c) tr'))"
proof -
  have loop: "attemptDownload_loop dest stage pw cb tot b
           \<lparr>file_content = fc, downloaded = d, lastUpdate = lu, lastDownloaded = ld,
            effects = map (with_client c) tr @ [with_client c e]\<rparr>
        = (case attemptDownload_loop dest stage pw cb tot b
                 \<lparr>file_content = fc, downloaded = d, lastUpdate = lu, lastDownloaded = ld,
                  effects = tr @ [e]\<rparr> of
             (err, st') \<Rightarrow> (err, st'\<lparr>effects := map (with_client c) (effects st')\<rparr>))"
    for tot b fc d lu ld e
    using loop_relabel [where st =
        "\<lparr>file_content = fc, downloaded = d, lastUpdate = lu, lastDownloaded = ld,
          effects = tr @ [e]\<rparr>" and c = c and b = b and tot = tot]
    by simp
  show ?thesis
    unfolding attemptDownload_transfer_def Let_def
    by (cases "StatusCode resp = 206")
       (auto simp: loop [where e = "OpenAppend _", simplified] loop [where e = "Create _", simplified]
          split: sum.splits prod.splits option.splits)
qed

lemma attemptDownloadInsecure_relabel:
  "attemptDownloadInsecure dest url stage progressWeight callback env fs =
     (case attemptDownload dest url stage progressWeight callback env fs of
        (err, fs', tr) \<Rightarrow> (err, fs', map (with_client InsecureClient) tr))"
  unfolding attemptDownloadInsecure_def attemptDownload_def Let_def
  using transfer_relabel [where c = InsecureClient and fs = fs
      and tr = "[MkdirAll dest, Stat (dest @ ''.tmp''), Do SharedClient url _]"]
  by (auto simp: attemptDownloadInsecure_transfer_eq split: option.splits sum.splits prod.splits)

lemma relabel_back:
  "(\<And>c u hs. Do c u hs \<in> set tr \<Longrightarrow> c = SharedClient) \<Longrightarrow>
     map (with_client SharedClient) (map (with_client InsecureClient) tr) = tr"
proof (induction tr)
  case Nil
  show ?case by simp
next
  case (Cons e tr)
  have "with_client SharedClient (with_client InsecureClient e) = e"
  proof (cases e)
    case (Do c u hs)
    with Cons.prems [of c u hs] show ?thesis by simp
  qed simp_all
  moreover have "map (with_client SharedClient) (map (with_client InsecureClient) tr) = tr"
  proof (rule Cons.IH)
    fix c u hs
    assume "Do c u hs \<in> set tr"
    then show "c = SharedClient" using Cons.prems [of c u hs] by simp
  qed
  ultimately show ?case by simp
qed

text \<open>
  C9. \<open>attemptDownload\<close> and \<open>attemptDownloadInsecure\<close>, in the same world (the same
  answers of the file system, the clock and the HTTP client) and from the same file
  system, return the same error, leave the same file system, and do the same things in
  the same order (file operations, request with its headers, callback calls): the
  only difference is the client that \<open>Do\<close> names.
\<close>

theorem attempts_equivalent:
  "fst (attemptDownloadInsecure dest url stage progressWeight callback env fs) =
     fst (attemptDownload dest url stage progressWeight callback env fs)
   \<and> fst (snd (attemptDownloadInsecure dest url stage progressWeight callback env fs)) =
     fst (snd (attemptDownload dest url stage progressWeight callback env fs))
   \<and> snd (snd (attemptDownloadInsecure dest url stage progressWeight callback env fs)) =
     map (with_client InsecureClient)
       (snd (snd (attemptDownload dest url stage progressWeight callback env fs)))
   \<and> map (with_client SharedClient)
       (snd (snd (attemptDownloadInsecure dest url stage progressWeight callback env fs))) =
     snd (snd (attemptDownload dest url stage progressWeight callback env fs))"
proof -
  obtain err fs' tr where
    run: "attemptDownload dest url stage progressWeight callback env fs = (err, fs', tr)"
    by (cases "attemptDownload dest url stage progressWeight callback env fs")
  have "map (with_client SharedClient) (map (with_client InsecureClient) tr) = tr"
    using attemptDownload_Do_shared [OF run] by (rule relabel_back)
  then show ?thesis
    by (simp add: attemptDownloadInsecure_relabel run)
qed

subsection \<open>The request of an attempt\<close>

lemma sint_of_nat_int64: "n < 2 ^ 63 \<Longrightarrow> sint (of_nat n :: int64) = int n"
proof -
  assume n: "n < 2 ^ 63"
  have "int n < 2 ^ 63" using n by (metis of_nat_less_iff of_nat_numeral of_nat_power)
  then have "signed_take_bit 63 (int n) = int n"
    by (simp add: signed_take_bit_int_eq_self)
  then show ?thesis by (simp add: signed_of_nat)
qed

lemma positive_int64: "n < 2 ^ 63 \<Longrightarrow> (0 <s (of_nat n :: int64)) \<longleftrightarrow> 0 < n"
  by (simp add: word_sless_alt sint_of_nat_int64)

lemma show_int_of_nat: "show_int (int n) = show_nat n"
  by (simp add: show_int_def)

lemma resume_headers:
  assumes "fits_int64 fs (dest @ ''.tmp'')"
  shows "(case Stat_Size fs (dest @ ''.tmp'') of
            None \<Rightarrow> []
          | Some sz \<Rightarrow>
              if 0 <s sz then [(''Range'', ''bytes='' @ show_int (sint sz) @ ''-'')] else [])
       = (case fs (dest @ ''.tmp'') of
            None \<Rightarrow> []
          | Some content \<Rightarrow>
              if 0 < length content
              then [(''Range'', ''bytes='' @ show_nat (length content) @ ''-'')] else [])"
  using assms
  by (cases "fs (dest @ ''.tmp'')")
     (simp_all add: fits_int64_def Stat_Size_def positive_int64 sint_of_nat_int64 show_int_of_nat)

text \<open>
  C5. An attempt that gets as far as the request sends exactly one \<open>GET\<close>, with the
  four fixed headers and, exactly when the temp file \<open>dest.tmp\<close> exists with a size
  above 0, the header \<open>Range: bytes=<size>-\<close>; with no temp file (or an empty one)
  there is no \<open>Range\<close> header. File sizes are \<open>int64\<close> values, so below \<open>2^63\<close>.
\<close>

theorem resume_request:
  assumes "fits_int64 fs (dest @ ''.tmp'')"
  shows "filter is_Do (snd (snd (attemptDownload dest url stage progressWeight callback env fs))) =
     (if mkdir_err env = None \<and> request_err env = None
      then [Do SharedClient url
              ([(''Accept'', ''*/*''), (''Accept-Encoding'', ''identity''),
                (''Connection'', ''keep-alive''), (''User-Agent'', ''HyPrism/1.0'')] @
               (case fs (dest @ ''.tmp'') of
                  None \<Rightarrow> []
                | Some content \<Rightarrow>
                    if 0 < length content
                    then [(''Range'', ''bytes='' @ show_nat (length content) @ ''-'')]
                    else []))]
      else [])"
proof -
  obtain err fs' tr where
    run: "attemptDownload dest url stage progressWeight callback env fs = (err, fs', tr)"
    by (cases "attemptDownload dest url stage progressWeight callback env fs")
  have "(case Stat_Size fs (dest @ ''.tmp'') of
            None \<Rightarrow> []
          | Some sz \<Rightarrow>
              if 0 <s sz then [(''Range'', ''bytes='' @ show_int (sint sz) @ ''-'')] else [])
       = (case fs (dest @ ''.tmp'') of
            None \<Rightarrow> []
          | Some content \<Rightarrow>
              if 0 < length content
              then [(''Range'', ''bytes='' @ show_nat (length content) @ ''-'')] else [])"
    using assms by (rule resume_headers)
  then show ?thesis
    using attemptDownload_Do [OF run] by (simp add: run)
qed

theorem resume_request_witness:
  "fits_int64 [''/d/f.tmp'' \<mapsto> ''abc''] (''/d/f'' @ ''.tmp'')
   \<and> filter is_Do (snd (snd (attemptDownload ''/d/f'' ''http://h/f'' ''download'' 1 True env_refused
         [''/d/f.tmp'' \<mapsto> ''abc'']))) =
     [Do SharedClient ''http://h/f''
        [(''Accept'', ''*/*''), (''Accept-Encoding'', ''identity''),
         (''Connection'', ''keep-alive''), (''User-Agent'', ''HyPrism/1.0''),
         (''Range'', ''bytes=3-'')]]"
proof -
  have h: "fits_int64 [''/d/f.tmp'' \<mapsto> ''abc''] (''/d/f'' @ ''.tmp'')"
    by (simp add: fits_int64_def)
  have s: "show_nat (Suc (Suc (Suc 0))) = ''3''" by code_simp
  show ?thesis
    using h resume_request [where fs = "[''/d/f.tmp'' \<mapsto> ''abc'']" and dest = "''/d/f''"
        and url = "''http://h/f''" and stage = "''download''" and progressWeight = 1
        and callback = True and env = env_refused]
    by (simp add: env_refused_def s)
qed

subsection \<open>The destination is written only by the final rename\<close>

lemma is_Rename_with_client [simp]: "is_Rename (with_client c e) = is_Rename e"
  by (cases e) simp_all

lemma filter_Rename_relabel:
  "filter is_Rename (map (with_client c) tr) = map (with_client c) (filter is_Rename tr)"
  by (induction tr) simp_all

lemma attemptDownloadInsecure_fs:
  assumes "attemptDownloadInsecure dest url stage pw cb env fs = (err, fs', tr)"
  shows "(\<forall>p. p \<noteq> dest @ ''.tmp'' \<longrightarrow> p \<noteq> dest \<longrightarrow> fs' p = fs p)
       \<and> (err \<noteq> None \<longrightarrow> fs' dest = fs dest)"
proof -
  obtain tr0 where "attemptDownload dest url stage pw cb env fs = (err, fs', tr0)"
    using assms unfolding attemptDownloadInsecure_relabel
    by (cases "attemptDownload dest url stage pw cb env fs") simp
  then show ?thesis by (rule attemptDownload_fs)
qed

lemma attemptDownloadInsecure_renames:
  assumes run: "attemptDownloadInsecure dest url stage pw cb env fs = (err, fs', tr)"
  shows "(filter is_Rename tr = [Rename (dest @ ''.tmp'') dest]
            \<and> (\<exists>hs resp. do_result env hs = Inr resp \<and> clean_EOF (Body resp))
            \<and> (\<exists>pre. tr = pre @ [CloseFile (dest @ ''.tmp''), Rename (dest @ ''.tmp'') dest,
                                  CloseFile (dest @ ''.tmp''), CloseBody])
            \<and> (err \<noteq> None \<longrightarrow> rename_err env \<noteq> None))
       \<or> (filter is_Rename tr = [] \<and> err \<noteq> None)"
proof -
  obtain tr0 where r0: "attemptDownload dest url stage pw cb env fs = (err, fs', tr0)"
    and tr: "tr = map (with_client InsecureClient) tr0"
    using assms unfolding attemptDownloadInsecure_relabel
    by (cases "attemptDownload dest url stage pw cb env fs") simp
  have shape: "\<exists>pre. map (with_client InsecureClient) tr0 =
            pre @ [CloseFile (dest @ ''.tmp''), Rename (dest @ ''.tmp'') dest,
                   CloseFile (dest @ ''.tmp''), CloseBody]"
    if "tr0 = pre0 @ [CloseFile (dest @ ''.tmp''), Rename (dest @ ''.tmp'') dest,
                      CloseFile (dest @ ''.tmp''), CloseBody]" for pre0
    using that by simp
  from attemptDownload_renames [OF r0] show ?thesis
  proof
    assume a: "filter is_Rename tr0 = [Rename (dest @ ''.tmp'') dest]
            \<and> (\<exists>hs resp. do_result env hs = Inr resp \<and> clean_EOF (Body resp))
            \<and> (\<exists>pre. tr0 = pre @ [CloseFile (dest @ ''.tmp''), Rename (dest @ ''.tmp'') dest,
                                  CloseFile (dest @ ''.tmp''), CloseBody])
            \<and> (err \<noteq> None \<longrightarrow> rename_err env \<noteq> None)"
    then obtain pre0 where "tr0 = pre0 @ [CloseFile (dest @ ''.tmp''),
        Rename (dest @ ''.tmp'') dest, CloseFile (dest @ ''.tmp''), CloseBody]"
      by blast
    from shape [OF this] a show ?thesis
      unfolding tr filter_Rename_relabel by simp
  next
    assume "filter is_Rename tr0 = [] \<and> err \<noteq> None"
    then show ?thesis
      unfolding tr filter_Rename_relabel by simp
  qed
qed

lemma body_fs:
  assumes "DownloadWithProgress_body dest url stage pw cb w attempt fs hist = Inr (lastErr, fs', hist')"
  shows "fs' dest = fs dest"
  using assms
  unfolding DownloadWithProgress_body_def Let_def
  by (auto split: prod.splits option.splits if_splits sum.splits
        dest!: attemptDownload_fs attemptDownloadInsecure_fs)

lemma body_return:
  assumes "DownloadWithProgress_body dest url stage pw cb w attempt fs hist = Inl (err, fs', hist')"
  shows "err = None"
  using assms
  unfolding DownloadWithProgress_body_def Let_def
  by (auto split: prod.splits option.splits if_splits sum.splits)

lemma loop_fs:
  "DownloadWithProgress_loop dest url stage pw cb w attempt lastErr fs hist = (Some e, fs', hist')
     \<Longrightarrow> fs' dest = fs dest"
proof (induction dest url stage pw cb w attempt lastErr fs hist
       rule: DownloadWithProgress_loop.induct)
  case (1 dest url stage pw cb w attempt lastErr fs hist)
  show ?case
  proof (cases "attempt \<le> maxRetries")
    case False
    with "1.prems" show ?thesis
      by (simp add: DownloadWithProgress_loop.simps [of dest url stage pw cb w attempt])
  next
    case True
    show ?thesis
    proof (cases "DownloadWithProgress_body dest url stage pw cb w attempt fs hist")
      case (Inl res)
      obtain r fs1 h1 where res: "res = (r, fs1, h1)" by (cases res)
      from Inl res have "r = None" by (auto dest: body_return)
      with "1.prems" True Inl res show ?thesis
        by (simp add: DownloadWithProgress_loop.simps [of dest url stage pw cb w attempt])
    next
      case (Inr cont)
      obtain le fs1 h1 where cont: "cont = (le, fs1, h1)" by (cases cont)
      from Inr cont have fs1: "fs1 dest = fs dest" by (auto dest: body_fs)
      from "1.prems" True Inr cont
      have "DownloadWithProgress_loop dest url stage pw cb w (attempt + 1) le fs1 h1
              = (Some e, fs', hist')"
        by (simp add: DownloadWithProgress_loop.simps [of dest url stage pw cb w attempt])
      from "1.IH" [OF True Inr cont [symmetric] refl this] fs1 show ?thesis by simp
    qed
  qed
qed

lemma rename_facts:
  assumes alt: "(filter is_Rename tr = [Rename (dest @ ''.tmp'') dest]
            \<and> (\<exists>hs resp. do_result env hs = Inr resp \<and> clean_EOF (Body resp))
            \<and> (\<exists>pre. tr = pre @ [CloseFile (dest @ ''.tmp''), Rename (dest @ ''.tmp'') dest,
                                  CloseFile (dest @ ''.tmp''), CloseBody])
            \<and> (err \<noteq> None \<longrightarrow> rename_err env \<noteq> None))
       \<or> (filter is_Rename tr = [] \<and> err \<noteq> None)"
  shows "(\<forall>e \<in> set tr. is_Rename e \<longrightarrow>
            e = Rename (dest @ ''.tmp'') dest
            \<and> (\<exists>hs resp. do_result env hs = Inr resp \<and> clean_EOF (Body resp))
            \<and> (\<exists>pre. tr = pre @ [CloseFile (dest @ ''.tmp''), Rename (dest @ ''.tmp'') dest,
                                  CloseFile (dest @ ''.tmp''), CloseBody]))
       \<and> (err \<noteq> None \<and> rename_err env = None \<longrightarrow> filter is_Rename tr = [])"
proof -
  have mem: "e \<in> set (filter is_Rename tr)" if "e \<in> set tr" "is_Rename e" for e
    using that by simp
  from alt show ?thesis
  proof
    assume a: "filter is_Rename tr = [Rename (dest @ ''.tmp'') dest]
            \<and> (\<exists>hs resp. do_result env hs = Inr resp \<and> clean_EOF (Body resp))
            \<and> (\<exists>pre. tr = pre @ [CloseFile (dest @ ''.tmp''), Rename (dest @ ''.tmp'') dest,
                                  CloseFile (dest @ ''.tmp''), CloseBody])
            \<and> (err \<noteq> None \<longrightarrow> rename_err env \<noteq> None)"
    then have "e = Rename (dest @ ''.tmp'') dest" if "e \<in> set tr" "is_Rename e" for e
      using mem [OF that] by simp
    with a show ?thesis by blast
  next
    assume b: "filter is_Rename tr = [] \<and> err \<noteq> None"
    then have "\<not> is_Rename e" if "e \<in> set tr" for e
      using mem [OF that] by auto
    with b show ?thesis by auto
  qed
qed

text \<open>
  C1. In an attempt (with either client) a rename happens only as
  \<open>os.Rename(dest.tmp, dest)\<close>, only after the body was read to a clean end of stream
  with every write succeeding, and after everything else the attempt does to files. An
  attempt that returns an error made no rename, unless the error is the one
  \<open>os.Rename\<close> itself returned; and it leaves the destination path as it was. So
  when \<open>DownloadWithProgress\<close> returns an error, the destination path is as it was
  before the call.
\<close>

theorem destination_untouched:
  assumes verified:
      "attemptDownload dest url stage progressWeight callback env fs = (err, fs', tr)"
    and insecure:
      "attemptDownloadInsecure dest url stage progressWeight callback env fs = (err_i, fs_i, tr_i)"
    and whole:
      "DownloadWithProgress dest url stage progressWeight callback w fs = (err_d, fs_d, hist)"
  shows "(\<forall>e \<in> set tr. is_Rename e \<longrightarrow>
            e = Rename (dest @ ''.tmp'') dest
            \<and> (\<exists>hs resp. do_result env hs = Inr resp \<and> clean_EOF (Body resp))
            \<and> (\<exists>pre. tr = pre @ [CloseFile (dest @ ''.tmp''), Rename (dest @ ''.tmp'') dest,
                                  CloseFile (dest @ ''.tmp''), CloseBody]))
       \<and> (err \<noteq> None \<and> rename_err env = None \<longrightarrow> filter is_Rename tr = [])
       \<and> (err \<noteq> None \<longrightarrow> fs' dest = fs dest)
       \<and> (\<forall>e \<in> set tr_i. is_Rename e \<longrightarrow>
            e = Rename (dest @ ''.tmp'') dest
            \<and> (\<exists>hs resp. do_result env hs = Inr resp \<and> clean_EOF (Body resp))
            \<and> (\<exists>pre. tr_i = pre @ [CloseFile (dest @ ''.tmp''), Rename (dest @ ''.tmp'') dest,
                                    CloseFile (dest @ ''.tmp''), CloseBody]))
       \<and> (err_i \<noteq> None \<and> rename_err env = None \<longrightarrow> filter is_Rename tr_i = [])
       \<and> (err_i \<noteq> None \<longrightarrow> fs_i dest = fs dest)
       \<and> (err_d \<noteq> None \<longrightarrow> fs_d dest = fs dest)"
proof -
  note v = rename_facts [OF attemptDownload_renames [OF verified]]
  note i = rename_facts [OF attemptDownloadInsecure_renames [OF insecure]]
  have d: "err_d \<noteq> None \<longrightarrow> fs_d dest = fs dest"
    using whole loop_fs unfolding DownloadWithProgress_def by blast
  note f = attemptDownload_fs [OF verified, THEN conjunct2]
  note fi = attemptDownloadInsecure_fs [OF insecure, THEN conjunct2]
  show ?thesis
    using v [THEN conjunct1] v [THEN conjunct2] f i [THEN conjunct1] i [THEN conjunct2] fi d
    by - (intro conjI; assumption)
qed

theorem destination_untouched_witness:
  "fst (attemptDownload ''/d/f'' ''http://h/f'' ''download'' 1 True env_midfail [''/d/f'' \<mapsto> ''old''])
     = Some (External ''unexpected EOF'')
   \<and> rename_err env_midfail = None
   \<and> filter is_Rename (snd (snd (attemptDownload ''/d/f'' ''http://h/f'' ''download'' 1 True
        env_midfail [''/d/f'' \<mapsto> ''old'']))) = []
   \<and> fst (snd (attemptDownload ''/d/f'' ''http://h/f'' ''download'' 1 True env_midfail
        [''/d/f'' \<mapsto> ''old''])) ''/d/f'' = Some ''old''
   \<and> fst (snd (attemptDownload ''/d/f'' ''http://h/f'' ''download'' 1 True env_midfail
        [''/d/f'' \<mapsto> ''old''])) ''/d/f.tmp'' = Some ''hello''
   \<and> fst (DownloadWithProgress ''/d/f'' ''http://h/f'' ''download'' 1 True (\<lambda>c n. env_midfail)
        [''/d/f'' \<mapsto> ''old'']) \<noteq> None
   \<and> fst (snd (DownloadWithProgress ''/d/f'' ''http://h/f'' ''download'' 1 True
        (\<lambda>c n. env_midfail) [''/d/f'' \<mapsto> ''old''])) ''/d/f'' = Some ''old''"
proof -
  let ?fs = "[''/d/f'' \<mapsto> ''old'']"
  let ?A = "attemptDownload ''/d/f'' ''http://h/f'' ''download'' 1 True env_midfail ?fs"
  let ?I = "attemptDownloadInsecure ''/d/f'' ''http://h/f'' ''download'' 1 True env_midfail ?fs"
  let ?D = "DownloadWithProgress ''/d/f'' ''http://h/f'' ''download'' 1 True (\<lambda>c n. env_midfail) ?fs"
  have a: "fst ?A = Some (External ''unexpected EOF'')" by code_simp
  have r: "rename_err env_midfail = None" by (simp add: env_midfail_def)
  have t: "fst (snd ?A) ''/d/f.tmp'' = Some ''hello''" by code_simp
  have d: "fst ?D \<noteq> None" by code_simp
  have "?A = (fst ?A, fst (snd ?A), snd (snd ?A))"
       "?I = (fst ?I, fst (snd ?I), snd (snd ?I))"
       "?D = (fst ?D, fst (snd ?D), snd (snd ?D))"
    by simp_all
  from destination_untouched [OF this] a r t d show ?thesis by simp
qed

subsection \<open>The bound on retries\<close>

lemma loop_unroll:
  "DownloadWithProgress_loop dest url stage pw cb w 1 lastErr fs hist =
     (case DownloadWithProgress_body dest url stage pw cb w 1 fs hist of
        Inl res \<Rightarrow> res
      | Inr (le1, fs1, h1) \<Rightarrow>
          (case DownloadWithProgress_body dest url stage pw cb w 2 fs1 h1 of
             Inl res \<Rightarrow> res
           | Inr (le2, fs2, h2) \<Rightarrow>
               (case DownloadWithProgress_body dest url stage pw cb w 3 fs2 h2 of
                  Inl res \<Rightarrow> res
                | Inr (le3, fs3, h3) \<Rightarrow> (Some (AttemptsFailed 3 le3), fs3, h3))))"
proof -
  have four: "DownloadWithProgress_loop dest url stage pw cb w 4 le f h
                = (Some (AttemptsFailed 3 le), f, h)" for le f h
    by (simp add: DownloadWithProgress_loop.simps [of _ _ _ _ _ _ 4] maxRetries_def)
  have three: "DownloadWithProgress_loop dest url stage pw cb w 3 le f h
      = (case DownloadWithProgress_body dest url stage pw cb w 3 f h of
           Inl res \<Rightarrow> res
         | Inr (le3, fs3, h3) \<Rightarrow> (Some (AttemptsFailed 3 le3), fs3, h3))" for le f h
    by (simp add: DownloadWithProgress_loop.simps [of _ _ _ _ _ _ 3] maxRetries_def four
          split: sum.splits)
  have two: "DownloadWithProgress_loop dest url stage pw cb w 2 le f h
      = (case DownloadWithProgress_body dest url stage pw cb w 2 f h of
           Inl res \<Rightarrow> res
         | Inr (le2, fs2, h2) \<Rightarrow> DownloadWithProgress_loop dest url stage pw cb w 3 le2 fs2 h2)"
    for le f h
    by (simp add: DownloadWithProgress_loop.simps [of _ _ _ _ _ _ 2] maxRetries_def
          split: sum.splits)
  have one: "DownloadWithProgress_loop dest url stage pw cb w 1 le f h
      = (case DownloadWithProgress_body dest url stage pw cb w 1 f h of
           Inl res \<Rightarrow> res
         | Inr (le1, fs1, h1) \<Rightarrow> DownloadWithProgress_loop dest url stage pw cb w 2 le1 fs1 h1)"
    for le f h
    by (subst DownloadWithProgress_loop.simps)
       (simp add: maxRetries_def numeral_2_eq_2 split: sum.splits)
  show ?thesis
    unfolding one two three by (rule refl)
qed

lemma body_continue:
  assumes "DownloadWithProgress_body dest url stage pw cb w n fs hist = Inr (lastErr, fs', hist')"
  shows "\<exists>e t line ins.
           attemptDownload dest url stage pw cb (w SharedClient n) fs = (Some e, t) \<and>
           hist' = hist @ [Attempt SharedClient (Some e) (snd t), Printed line] @ ins @
                     (if n < 3 then [Sleep retryDelay] else []) \<and>
           (ins = [] \<and> lastErr = Some e \<and> \<not> (n = 1 \<and> isCertError (Some e) \<and> isTrustedSource url)
            \<or> n = 1 \<and> isCertError (Some e) \<and> isTrustedSource url \<and>
              (\<exists>line2 e2 t2. ins = [Printed line2, Attempt InsecureClient (Some e2) t2]
                  \<and> lastErr = Some e2))"
  using assms
  unfolding DownloadWithProgress_body_def Let_def maxRetries_def
  by (auto split: prod.splits option.splits if_splits sum.splits)

lemma body_success:
  assumes "DownloadWithProgress_body dest url stage pw cb w n fs hist = Inl (r, fs', hist')"
  shows "r = None \<and>
         (\<exists>pre c t post. hist' = hist @ pre @ Attempt c None t # post
            \<and> \<not> list_ex succeeded pre \<and> list_all is_Printed post)"
proof -
  have a: "\<exists>pre c t post. [Attempt SharedClient None tr] = pre @ Attempt c None t # post
            \<and> \<not> list_ex succeeded pre \<and> list_all is_Printed post" for tr
    by (rule exI [of _ "[]"]) auto
  have b: "\<exists>pre c t post.
             [Attempt SharedClient (Some e) tr, Printed l1, Printed l2,
              Attempt InsecureClient None tr2, Printed l3]
               = pre @ Attempt c None t # post
            \<and> \<not> list_ex succeeded pre \<and> list_all is_Printed post" for e tr l1 l2 tr2 l3
    by (rule exI [of _ "[Attempt SharedClient (Some e) tr, Printed l1, Printed l2]"]) auto
  from assms show ?thesis
    unfolding DownloadWithProgress_body_def Let_def
    by (auto split: prod.splits option.splits if_splits sum.splits simp: a b)
qed

lemma loop_success:
  "DownloadWithProgress_loop dest url stage pw cb w attempt lastErr fs hist = (None, fs', hist')
     \<Longrightarrow> \<not> list_ex succeeded hist
     \<Longrightarrow> \<exists>pre c t post. hist' = pre @ Attempt c None t # post
            \<and> \<not> list_ex succeeded pre \<and> list_all is_Printed post"
proof (induction dest url stage pw cb w attempt lastErr fs hist
       rule: DownloadWithProgress_loop.induct)
  case (1 dest url stage pw cb w attempt lastErr fs hist)
  show ?case
  proof (cases "attempt \<le> maxRetries")
    case False
    with "1.prems" show ?thesis
      by (simp add: DownloadWithProgress_loop.simps [of dest url stage pw cb w attempt])
  next
    case True
    show ?thesis
    proof (cases "DownloadWithProgress_body dest url stage pw cb w attempt fs hist")
      case (Inl res)
      obtain r fs1 h1 where res: "res = (r, fs1, h1)" by (cases res)
      from "1.prems" True Inl res have h1: "h1 = hist'"
        by (simp add: DownloadWithProgress_loop.simps [of dest url stage pw cb w attempt])
      from body_success [OF Inl [unfolded res]] obtain pre c t post where
        "h1 = hist @ pre @ Attempt c None t # post" "\<not> list_ex succeeded pre"
        "list_all is_Printed post"
        by blast
      with "1.prems"(2) h1
      have "hist' = (hist @ pre) @ Attempt c None t # post \<and> \<not> list_ex succeeded (hist @ pre)
            \<and> list_all is_Printed post"
        by simp
      then show ?thesis by blast
    next
      case (Inr cont)
      obtain le fs1 h1 where cont: "cont = (le, fs1, h1)" by (cases cont)
      from body_continue [OF Inr [unfolded cont]] have "\<not> list_ex succeeded h1"
        using "1.prems"(2) by (auto split: if_splits)
      moreover from "1.prems" True Inr cont
      have "DownloadWithProgress_loop dest url stage pw cb w (attempt + 1) le fs1 h1
              = (None, fs', hist')"
        by (simp add: DownloadWithProgress_loop.simps [of dest url stage pw cb w attempt])
      ultimately show ?thesis
        using "1.IH" [OF True Inr cont [symmetric] refl] by blast
    qed
  qed
qed

lemma attempts_failed_text:
  "Error (AttemptsFailed 3 (Some e)) = ''download failed after 3 attempts: '' @ Error e"
proof -
  have "show_nat 3 = ''3''" by code_simp
  then show ?thesis by simp
qed

lemma all_failed_shape:
  assumes run: "DownloadWithProgress dest url stage pw cb w fs = (Some err, fs', hist)"
  shows "\<exists>e1 t1 l1 ins e2 t2 l2 e3 t3 l3.
           hist = [Attempt SharedClient (Some e1) t1, Printed l1] @ ins @
                  [Sleep retryDelay,
                   Attempt SharedClient (Some e2) t2, Printed l2, Sleep retryDelay,
                   Attempt SharedClient (Some e3) t3, Printed l3]
           \<and> (ins = [] \<or> (\<exists>l e t. ins = [Printed l, Attempt InsecureClient (Some e) t]))
           \<and> err = AttemptsFailed 3 (Some e3)"
proof -
  let ?body = "DownloadWithProgress_body dest url stage pw cb w"
  note run' = run [unfolded DownloadWithProgress_def loop_unroll]
  obtain le1 fs1 h1 where b1: "?body 1 fs [] = Inr (le1, fs1, h1)"
    using run' by (cases "?body 1 fs []") (auto dest: body_return)
  obtain le2 fs2 h2 where b2: "?body 2 fs1 h1 = Inr (le2, fs2, h2)"
    using run' b1 by (cases "?body 2 fs1 h1") (auto dest: body_return)
  obtain le3 fs3 h3 where b3: "?body 3 fs2 h2 = Inr (le3, fs3, h3)"
    using run' b1 b2 by (cases "?body 3 fs2 h2") (auto dest: body_return)
  from run' b1 b2 b3 have res: "err = AttemptsFailed 3 le3" "hist = h3" by simp_all
  from body_continue [OF b1] obtain e1 t1 l1 ins where
    h1: "h1 = [Attempt SharedClient (Some e1) t1, Printed l1] @ ins @ [Sleep retryDelay]"
    and ins: "ins = [] \<or> (\<exists>l e t. ins = [Printed l, Attempt InsecureClient (Some e) t])"
    by fastforce
  from body_continue [OF b2] obtain e2 t2 l2 where
    h2: "h2 = h1 @ [Attempt SharedClient (Some e2) t2, Printed l2, Sleep retryDelay]"
    by fastforce
  from body_continue [OF b3] obtain e3 t3 l3 where
    h3: "h3 = h2 @ [Attempt SharedClient (Some e3) t3, Printed l3]" and le3: "le3 = Some e3"
    by fastforce
  have "hist = [Attempt SharedClient (Some e1) t1, Printed l1] @ ins @
                  [Sleep retryDelay,
                   Attempt SharedClient (Some e2) t2, Printed l2, Sleep retryDelay,
                   Attempt SharedClient (Some e3) t3, Printed l3]"
    by (simp add: res h1 h2 h3)
  with ins res le3 show ?thesis by blast
qed

text \<open>
  C2. When \<open>DownloadWithProgress\<close> returns an error, every attempt it made failed and
  it did exactly this: verified attempt 1 (followed, at most, by the one insecure
  attempt), a sleep of 2 seconds, verified attempt 2, a sleep of 2 seconds, verified
  attempt 3, and no sleep after it; three verified attempts and two sleeps in all. The
  error returned says \<open>download failed after 3 attempts:\<close> and wraps the error of the
  third attempt. When it returns nil, the successful attempt is the first attempt that
  succeeded, and after it there is no attempt and no sleep (lines printed at most).
\<close>

theorem retry_bound:
  assumes run: "DownloadWithProgress dest url stage progressWeight callback w fs = (err, fs', hist)"
  shows "(err \<noteq> None \<longrightarrow>
           (\<exists>e1 t1 l1 ins e2 t2 l2 e3 t3 l3.
              hist = [Attempt SharedClient (Some e1) t1, Printed l1] @ ins @
                     [Sleep 2000000000,
                      Attempt SharedClient (Some e2) t2, Printed l2, Sleep 2000000000,
                      Attempt SharedClient (Some e3) t3, Printed l3]
              \<and> (ins = [] \<or> (\<exists>l e t. ins = [Printed l, Attempt InsecureClient (Some e) t]))
              \<and> err = Some (AttemptsFailed 3 (Some e3))
              \<and> Error (AttemptsFailed 3 (Some e3)) =
                  ''download failed after 3 attempts: '' @ Error e3)
           \<and> length (filter (is_Attempt_by SharedClient) hist) = 3
           \<and> filter is_Sleep hist = [Sleep 2000000000, Sleep 2000000000])
       \<and> (err = None \<longrightarrow>
           (\<exists>pre c t post. hist = pre @ Attempt c None t # post
              \<and> \<not> list_ex succeeded pre \<and> list_all is_Printed post))"
proof (intro conjI impI)
  have rd: "retryDelay = 2000000000" by (simp add: retryDelay_def)
  assume "err \<noteq> None"
  then obtain e where e: "err = Some e" by blast
  from all_failed_shape [OF run [unfolded e]] obtain e1 t1 l1 ins e2 t2 l2 e3 t3 l3 where
    hist: "hist = [Attempt SharedClient (Some e1) t1, Printed l1] @ ins @
                  [Sleep retryDelay,
                   Attempt SharedClient (Some e2) t2, Printed l2, Sleep retryDelay,
                   Attempt SharedClient (Some e3) t3, Printed l3]"
    and ins: "ins = [] \<or> (\<exists>l e t. ins = [Printed l, Attempt InsecureClient (Some e) t])"
    and err: "e = AttemptsFailed 3 (Some e3)"
    by blast
  show "\<exists>e1 t1 l1 ins e2 t2 l2 e3 t3 l3.
              hist = [Attempt SharedClient (Some e1) t1, Printed l1] @ ins @
                     [Sleep 2000000000,
                      Attempt SharedClient (Some e2) t2, Printed l2, Sleep 2000000000,
                      Attempt SharedClient (Some e3) t3, Printed l3]
              \<and> (ins = [] \<or> (\<exists>l e t. ins = [Printed l, Attempt InsecureClient (Some e) t]))
              \<and> err = Some (AttemptsFailed 3 (Some e3))
              \<and> Error (AttemptsFailed 3 (Some e3)) =
                  ''download failed after 3 attempts: '' @ Error e3"
    using hist [unfolded rd] ins err e attempts_failed_text [of e3] by blast
  from ins show "length (filter (is_Attempt_by SharedClient) hist) = 3"
    by (auto simp: hist)
  from ins show "filter is_Sleep hist = [Sleep 2000000000, Sleep 2000000000]"
    by (auto simp: hist rd)
next
  assume "err = None"
  with run show "\<exists>pre c t post. hist = pre @ Attempt c None t # post
              \<and> \<not> list_ex succeeded pre \<and> list_all is_Printed post"
    unfolding DownloadWithProgress_def by (auto dest: loop_success)
qed

theorem retry_bound_witness:
  "fst (DownloadWithProgress ''/d/f'' ''http://h/f'' ''download'' 1 True (\<lambda>c n. env_status 500)
          Map.empty)
     = Some (AttemptsFailed 3 (Some (UnexpectedStatus 500)))
   \<and> length (filter (is_Attempt_by SharedClient)
        (snd (snd (DownloadWithProgress ''/d/f'' ''http://h/f'' ''download'' 1 True
           (\<lambda>c n. env_status 500) Map.empty)))) = 3
   \<and> filter is_Sleep
        (snd (snd (DownloadWithProgress ''/d/f'' ''http://h/f'' ''download'' 1 True
           (\<lambda>c n. env_status 500) Map.empty))) = [Sleep 2000000000, Sleep 2000000000]
   \<and> fst (DownloadWithProgress ''/d/f'' ''http://h/f'' ''download'' 1 True (\<lambda>c n. env_status 200)
          Map.empty) = None
   \<and> (\<exists>pre c t post.
         snd (snd (DownloadWithProgress ''/d/f'' ''http://h/f'' ''download'' 1 True
           (\<lambda>c n. env_status 200) Map.empty)) = pre @ Attempt c None t # post
         \<and> \<not> list_ex succeeded pre \<and> list_all is_Printed post)"
proof -
  let ?F = "DownloadWithProgress ''/d/f'' ''http://h/f'' ''download'' 1 True
              (\<lambda>c n. env_status 500) Map.empty"
  let ?S = "DownloadWithProgress ''/d/f'' ''http://h/f'' ''download'' 1 True
              (\<lambda>c n. env_status 200) Map.empty"
  have f: "fst ?F = Some (AttemptsFailed 3 (Some (UnexpectedStatus 500)))" by code_simp
  have s: "fst ?S = None" by code_simp
  have "?F = (fst ?F, fst (snd ?F), snd (snd ?F))" by simp
  from retry_bound [OF this] f
  have 1: "length (filter (is_Attempt_by SharedClient) (snd (snd ?F))) = 3
         \<and> filter is_Sleep (snd (snd ?F)) = [Sleep 2000000000, Sleep 2000000000]"
    by simp
  have "?S = (fst ?S, fst (snd ?S), snd (snd ?S))" by simp
  from retry_bound [OF this] s
  have 2: "\<exists>pre c t post. snd (snd ?S) = pre @ Attempt c None t # post
         \<and> \<not> list_ex succeeded pre \<and> list_all is_Printed post"
    by simp
  from f s 1 2 show ?thesis by simp
qed

subsection \<open>The insecure fallback\<close>

lemma body_later:
  assumes "n \<noteq> 1"
    and "DownloadWithProgress_body dest url stage pw cb w n fs hist = res"
  shows "\<exists>new. (case res of Inl (r, f, h) \<Rightarrow> h | Inr (le, f, h) \<Rightarrow> h) = hist @ new
           \<and> \<not> list_ex (is_Attempt_by InsecureClient) new"
  using assms
  unfolding DownloadWithProgress_body_def Let_def
  by (auto split: prod.splits option.splits if_splits sum.splits)

lemma loop_later:
  "DownloadWithProgress_loop dest url stage pw cb w attempt lastErr fs hist = (r, fs', hist')
     \<Longrightarrow> 2 \<le> attempt
     \<Longrightarrow> \<exists>new. hist' = hist @ new \<and> \<not> list_ex (is_Attempt_by InsecureClient) new"
proof (induction dest url stage pw cb w attempt lastErr fs hist
       rule: DownloadWithProgress_loop.induct)
  case (1 dest url stage pw cb w attempt lastErr fs hist)
  show ?case
  proof (cases "attempt \<le> maxRetries")
    case False
    with "1.prems" show ?thesis
      by (simp add: DownloadWithProgress_loop.simps [of dest url stage pw cb w attempt])
  next
    case True
    from "1.prems"(2) have n1: "attempt \<noteq> 1" by simp
    show ?thesis
    proof (cases "DownloadWithProgress_body dest url stage pw cb w attempt fs hist")
      case (Inl res)
      obtain r1 fs1 h1 where res: "res = (r1, fs1, h1)" by (cases res)
      from "1.prems" True Inl res have h1: "h1 = hist'"
        by (simp add: DownloadWithProgress_loop.simps [of dest url stage pw cb w attempt])
      from body_later [OF n1 Inl] res h1 show ?thesis by simp
    next
      case (Inr cont)
      obtain le fs1 h1 where cont: "cont = (le, fs1, h1)" by (cases cont)
      from body_later [OF n1 Inr] cont obtain new1 where
        new1: "h1 = hist @ new1" "\<not> list_ex (is_Attempt_by InsecureClient) new1"
        by auto
      from "1.prems" True Inr cont
      have "DownloadWithProgress_loop dest url stage pw cb w (attempt + 1) le fs1 h1
              = (r, fs', hist')"
        by (simp add: DownloadWithProgress_loop.simps [of dest url stage pw cb w attempt])
      from "1.IH" [OF True Inr cont [symmetric] refl this] "1.prems"(2)
      obtain new2 where
        "hist' = h1 @ new2" "\<not> list_ex (is_Attempt_by InsecureClient) new2"
        by auto
      with new1 have "hist' = hist @ (new1 @ new2)
          \<and> \<not> list_ex (is_Attempt_by InsecureClient) (new1 @ new2)"
        by simp
      then show ?thesis by blast
    qed
  qed
qed

lemma loop_first:
  "DownloadWithProgress dest url stage pw cb w fs =
     (case DownloadWithProgress_body dest url stage pw cb w 1 fs [] of
        Inl res \<Rightarrow> res
      | Inr (le1, fs1, h1) \<Rightarrow> DownloadWithProgress_loop dest url stage pw cb w 2 le1 fs1 h1)"
  unfolding DownloadWithProgress_def
  by (subst DownloadWithProgress_loop.simps)
     (simp add: maxRetries_def numeral_2_eq_2 split: sum.splits)

text \<open>
  C3, as the code has it. The fallback belongs to the first iteration only
  (\<open>attempt == 1\<close>). When the first verified attempt fails with an error that
  \<open>isCertError\<close> accepts and the URL is trusted, the next thing done, after two printed
  lines and before any sleep, is one attempt with the insecure client; there is no other
  insecure attempt; and if it succeeds the download returns nil at once. In every other
  case (the first attempt succeeds or fails otherwise, or the URL is not trusted) the
  insecure client is never used, whatever the later attempts fail with.
\<close>

theorem insecure_fallback_first_attempt:
  assumes first:
      "attemptDownload dest url stage progressWeight callback (w SharedClient 1) fs = (e1, fs1, t1)"
    and fallback:
      "attemptDownloadInsecure dest url stage progressWeight callback (w InsecureClient 1) fs1
         = (e2, fs2, t2)"
    and whole:
      "DownloadWithProgress dest url stage progressWeight callback w fs = (err, fs', hist)"
  shows "(isCertError e1 \<and> isTrustedSource url \<longrightarrow>
            (\<exists>l1 l2 rest.
               hist = [Attempt SharedClient e1 t1, Printed l1, Printed l2,
                       Attempt InsecureClient e2 t2] @ rest
               \<and> \<not> list_ex (is_Attempt_by InsecureClient) rest
               \<and> (e2 = None \<longrightarrow> err = None \<and> list_all is_Printed rest)))
       \<and> (\<not> (isCertError e1 \<and> isTrustedSource url) \<longrightarrow>
            \<not> list_ex (is_Attempt_by InsecureClient) hist)"
proof (intro conjI impI)
  let ?body = "DownloadWithProgress_body dest url stage progressWeight callback w 1 fs []"
  note whole' = whole [unfolded loop_first]
  {
    assume ct: "isCertError e1 \<and> isTrustedSource url"
    then obtain e where e1: "e1 = Some e" by (cases e1) auto
    show "\<exists>l1 l2 rest.
               hist = [Attempt SharedClient e1 t1, Printed l1, Printed l2,
                       Attempt InsecureClient e2 t2] @ rest
               \<and> \<not> list_ex (is_Attempt_by InsecureClient) rest
               \<and> (e2 = None \<longrightarrow> err = None \<and> list_all is_Printed rest)"
    proof (cases e2)
      case None
      have "\<exists>l1 l2 l3. ?body = Inl (None, fs2,
              [Attempt SharedClient e1 t1, Printed l1, Printed l2,
               Attempt InsecureClient e2 t2, Printed l3])"
        using ct first fallback e1 None
        unfolding DownloadWithProgress_body_def Let_def by simp
      then obtain l1 l2 l3 where "?body = Inl (None, fs2,
              [Attempt SharedClient e1 t1, Printed l1, Printed l2,
               Attempt InsecureClient e2 t2, Printed l3])"
        by blast
      with whole' have "hist = [Attempt SharedClient e1 t1, Printed l1, Printed l2,
               Attempt InsecureClient e2 t2] @ [Printed l3]" "err = None"
        by simp_all
      then show ?thesis by (intro exI [of _ l1] exI [of _ l2] exI [of _ "[Printed l3]"]) simp
    next
      case (Some e')
      have "\<exists>l1 l2. ?body = Inr (e2, fs2,
              [Attempt SharedClient e1 t1, Printed l1, Printed l2,
               Attempt InsecureClient e2 t2, Sleep retryDelay])"
        using ct first fallback e1 Some
        unfolding DownloadWithProgress_body_def Let_def by (simp add: maxRetries_def)
      then obtain l1 l2 where b: "?body = Inr (e2, fs2,
              [Attempt SharedClient e1 t1, Printed l1, Printed l2,
               Attempt InsecureClient e2 t2, Sleep retryDelay])"
        by blast
      with whole' have "DownloadWithProgress_loop dest url stage progressWeight callback w 2 e2 fs2
              [Attempt SharedClient e1 t1, Printed l1, Printed l2,
               Attempt InsecureClient e2 t2, Sleep retryDelay] = (err, fs', hist)"
        by simp
      from loop_later [OF this] obtain new where
        "hist = [Attempt SharedClient e1 t1, Printed l1, Printed l2,
               Attempt InsecureClient e2 t2] @ (Sleep retryDelay # new)"
        "\<not> list_ex (is_Attempt_by InsecureClient) (Sleep retryDelay # new)"
        by auto
      with Some show ?thesis by blast
    qed
  }
  {
    assume nct: "\<not> (isCertError e1 \<and> isTrustedSource url)"
    show "\<not> list_ex (is_Attempt_by InsecureClient) hist"
    proof (cases e1)
      case None
      with first have "?body = Inl (None, fs1, [Attempt SharedClient None t1])"
        unfolding DownloadWithProgress_body_def Let_def by simp
      with whole' show ?thesis by auto
    next
      case (Some e)
      with first nct have "\<exists>l1. ?body = Inr (e1, fs1,
          [Attempt SharedClient e1 t1, Printed l1, Sleep retryDelay])"
        unfolding DownloadWithProgress_body_def Let_def by (auto simp: maxRetries_def)
      then obtain l1 where "?body = Inr (e1, fs1,
          [Attempt SharedClient e1 t1, Printed l1, Sleep retryDelay])"
        by blast
      with whole' have "DownloadWithProgress_loop dest url stage progressWeight callback w 2 e1 fs1
              [Attempt SharedClient e1 t1, Printed l1, Sleep retryDelay] = (err, fs', hist)"
        by simp
      from loop_later [OF this] show ?thesis by auto
    qed
  }
qed

text \<open>
  The claim as stated fails: here the second verified attempt fails on the certificate,
  for a URL of a trusted host, and the three verified attempts are all the attempts
  there are.
\<close>

theorem insecure_fallback_counterexample:
  "attempts_of (snd (snd (DownloadWithProgress ''/d/f'' ''https://github.com/o/r/releases/f''
       ''download'' 1 True world_cert_second Map.empty)))
     = [(SharedClient, Some (External ''dial tcp: connection refused'')),
        (SharedClient, Some (External
           ''tls: failed to verify certificate: x509: certificate signed by unknown authority'')),
        (SharedClient, Some (External ''dial tcp: connection refused''))]
   \<and> isCertError (Some (External
         ''tls: failed to verify certificate: x509: certificate signed by unknown authority''))
   \<and> isTrustedSource ''https://github.com/o/r/releases/f''"
  by code_simp

theorem insecure_fallback_first_attempt_witness:
  "isCertError (fst (attemptDownload ''/d/f'' ''https://github.com/o/r/releases/f'' ''download'' 1
        True (world_cert SharedClient 1) Map.empty))
   \<and> isTrustedSource ''https://github.com/o/r/releases/f''
   \<and> fst (DownloadWithProgress ''/d/f'' ''https://github.com/o/r/releases/f'' ''download'' 1 True
        world_cert Map.empty) = None
   \<and> (\<exists>l1 l2 rest.
        snd (snd (DownloadWithProgress ''/d/f'' ''https://github.com/o/r/releases/f'' ''download'' 1
          True world_cert Map.empty))
        = [Attempt SharedClient
             (fst (attemptDownload ''/d/f'' ''https://github.com/o/r/releases/f'' ''download'' 1
                True (world_cert SharedClient 1) Map.empty))
             (snd (snd (attemptDownload ''/d/f'' ''https://github.com/o/r/releases/f'' ''download''
                1 True (world_cert SharedClient 1) Map.empty))),
           Printed l1, Printed l2,
           Attempt InsecureClient None
             (snd (snd (attemptDownloadInsecure ''/d/f'' ''https://github.com/o/r/releases/f''
                ''download'' 1 True (world_cert InsecureClient 1)
                (fst (snd (attemptDownload ''/d/f'' ''https://github.com/o/r/releases/f''
                   ''download'' 1 True (world_cert SharedClient 1) Map.empty))))))] @ rest
        \<and> \<not> list_ex (is_Attempt_by InsecureClient) rest \<and> list_all is_Printed rest)
   \<and> \<not> isTrustedSource ''https://example.org/f''
   \<and> \<not> list_ex (is_Attempt_by InsecureClient)
        (snd (snd (DownloadWithProgress ''/d/f'' ''https://example.org/f'' ''download'' 1 True
          world_cert Map.empty)))"
proof -
  let ?u = "''https://github.com/o/r/releases/f''"
  let ?A = "attemptDownload ''/d/f'' ?u ''download'' 1 True (world_cert SharedClient 1) Map.empty"
  let ?I = "attemptDownloadInsecure ''/d/f'' ?u ''download'' 1 True (world_cert InsecureClient 1)
              (fst (snd ?A))"
  let ?D = "DownloadWithProgress ''/d/f'' ?u ''download'' 1 True world_cert Map.empty"
  let ?v = "''https://example.org/f''"
  let ?A' = "attemptDownload ''/d/f'' ?v ''download'' 1 True (world_cert SharedClient 1) Map.empty"
  let ?I' = "attemptDownloadInsecure ''/d/f'' ?v ''download'' 1 True (world_cert InsecureClient 1)
              (fst (snd ?A'))"
  let ?D' = "DownloadWithProgress ''/d/f'' ?v ''download'' 1 True world_cert Map.empty"
  have c: "isCertError (fst ?A)" by code_simp
  have t: "isTrustedSource ?u" by code_simp
  have i: "fst ?I = None" by code_simp
  have n: "\<not> isTrustedSource ?v" by code_simp
  have "?A = (fst ?A, fst (snd ?A), snd (snd ?A))" "?I = (fst ?I, fst (snd ?I), snd (snd ?I))"
       "?D = (fst ?D, fst (snd ?D), snd (snd ?D))"
    by simp_all
  from insecure_fallback_first_attempt [OF this] c t i
  have 1: "\<exists>l1 l2 rest. snd (snd ?D) =
             [Attempt SharedClient (fst ?A) (snd (snd ?A)), Printed l1, Printed l2,
              Attempt InsecureClient None (snd (snd ?I))] @ rest
           \<and> \<not> list_ex (is_Attempt_by InsecureClient) rest
           \<and> fst ?D = None \<and> list_all is_Printed rest"
    by simp
  have "?A' = (fst ?A', fst (snd ?A'), snd (snd ?A'))" "?I' = (fst ?I', fst (snd ?I'), snd (snd ?I'))"
       "?D' = (fst ?D', fst (snd ?D'), snd (snd ?D'))"
    by simp_all
  from insecure_fallback_first_attempt [OF this] n
  have 2: "\<not> list_ex (is_Attempt_by InsecureClient) (snd (snd ?D'))"
    by simp
  from c t n 1 2 show ?thesis by auto
qed

subsection \<open>What the progress callback is told\<close>

lemma chunk_reports:
  assumes c: "attemptDownload_chunk dest stage pw cb tot r st = (err, st')"
    and inv: "downloaded st = of_nat (length (file_content st))"
  shows "\<exists>new. effects st' = effects st @ new
     \<and> (\<forall>a n. Callback a n \<in> set new \<longrightarrow>
           cb \<and> total_arg a = tot \<and> progress_arg a = (downloaded_arg a, tot, pw)
           \<and> stage_arg a = stage \<and> currentFile_arg a = dest
           \<and> downloaded_arg a = of_nat n \<and> n = length (file_content st')
           \<and> snd (speed_arg a) = clock_speed r - lastUpdate st)
     \<and> (err = None \<longrightarrow> downloaded st' = of_nat (length (file_content st')))
     \<and> length (file_content st) \<le> length (file_content st')
     \<and> (err = None \<longrightarrow> file_content st' = file_content st @ data r)
     \<and> (filter is_Callback new = [] \<and> lastUpdate st' = lastUpdate st
        \<or> length (filter is_Callback new) = 1 \<and> lastUpdate st' = clock_reset r
          \<and> 100000000 \<le> clock_check r - lastUpdate st)"
  using c inv
  unfolding attemptDownload_chunk_def Let_def
  by (auto split: if_splits option.splits prod.splits)

lemma clock_monotone_end: "clock_monotone t b \<Longrightarrow> t \<le> end_clock b"
  by (induction b arbitrary: t) force+

lemma loop_reports:
  assumes "attemptDownload_loop dest stage pw cb tot b st = (err, st')"
    and "downloaded st = of_nat (length (file_content st))"
  shows "\<exists>new. effects st' = effects st @ new
     \<and> (\<forall>a n. Callback a n \<in> set new \<longrightarrow>
           cb \<and> total_arg a = tot \<and> progress_arg a = (downloaded_arg a, tot, pw)
           \<and> stage_arg a = stage \<and> currentFile_arg a = dest
           \<and> downloaded_arg a = of_nat n \<and> n \<le> length (file_content st'))
     \<and> length (file_content st) \<le> length (file_content st')
     \<and> (err = None \<longrightarrow> file_content st' = file_content st @ body_data b)"
  using assms
proof (induction b arbitrary: st)
  case (Last r e)
  obtain e1 st1 where c: "attemptDownload_chunk dest stage pw cb tot r st = (e1, st1)"
    by (cases "attemptDownload_chunk dest stage pw cb tot r st")
  from Last.prems(1) c have st': "st' = st1" and err: "err = None \<longrightarrow> e1 = None"
    by (auto split: option.splits read_end.splits)
  from chunk_reports [OF c Last.prems(2)] st' err show ?case
    by auto
next
  case (Next r b)
  obtain e1 st1 where c: "attemptDownload_chunk dest stage pw cb tot r st = (e1, st1)"
    by (cases "attemptDownload_chunk dest stage pw cb tot r st")
  from chunk_reports [OF c Next.prems(2)] obtain new1 where
    n1: "effects st1 = effects st @ new1"
    and r1: "\<forall>a n. Callback a n \<in> set new1 \<longrightarrow>
           cb \<and> total_arg a = tot \<and> progress_arg a = (downloaded_arg a, tot, pw)
           \<and> stage_arg a = stage \<and> currentFile_arg a = dest
           \<and> downloaded_arg a = of_nat n \<and> n = length (file_content st1)"
    and i1: "e1 = None \<longrightarrow> downloaded st1 = of_nat (length (file_content st1))"
    and l1: "length (file_content st) \<le> length (file_content st1)"
    and d1: "e1 = None \<longrightarrow> file_content st1 = file_content st @ data r"
    by auto
  show ?case
  proof (cases e1)
    case (Some x)
    with Next.prems(1) c have "st' = st1" "err \<noteq> None" by auto
    with n1 r1 l1 show ?thesis by auto
  next
    case None
    with Next.prems(1) c have l: "attemptDownload_loop dest stage pw cb tot b st1 = (err, st')"
      by simp
    from Next.IH [OF l] i1 None obtain new2 where
      n2: "effects st' = effects st1 @ new2"
      and r2: "\<forall>a n. Callback a n \<in> set new2 \<longrightarrow>
           cb \<and> total_arg a = tot \<and> progress_arg a = (downloaded_arg a, tot, pw)
           \<and> stage_arg a = stage \<and> currentFile_arg a = dest
           \<and> downloaded_arg a = of_nat n \<and> n \<le> length (file_content st')"
      and l2: "length (file_content st1) \<le> length (file_content st')"
      and d2: "err = None \<longrightarrow> file_content st' = file_content st1 @ body_data b"
      by auto
    have "effects st' = effects st @ (new1 @ new2)" by (simp add: n1 n2)
    moreover have "\<forall>a n. Callback a n \<in> set (new1 @ new2) \<longrightarrow>
           cb \<and> total_arg a = tot \<and> progress_arg a = (downloaded_arg a, tot, pw)
           \<and> stage_arg a = stage \<and> currentFile_arg a = dest
           \<and> downloaded_arg a = of_nat n \<and> n \<le> length (file_content st')"
      using r1 r2 l2 by auto
    moreover have "length (file_content st) \<le> length (file_content st')"
      using l1 l2 by simp
    moreover have "err = None \<longrightarrow> file_content st' = file_content st @ body_data (Next r b)"
      using d1 d2 None by simp
    ultimately show ?thesis by blast
  qed
qed

lemma chunk_timing:
  assumes c: "attemptDownload_chunk dest stage pw cb tot r st = (err, st')"
  shows "\<exists>new. effects st' = effects st @ new
     \<and> (filter is_Callback new = [] \<and> lastUpdate st' = lastUpdate st
        \<or> length (filter is_Callback new) = 1 \<and> lastUpdate st' = clock_reset r
          \<and> 100000000 \<le> clock_check r - lastUpdate st)
     \<and> (\<forall>a n. Callback a n \<in> set new \<longrightarrow>
           snd (speed_arg a) = clock_speed r - lastUpdate st
           \<and> 100000000 \<le> clock_check r - lastUpdate st)"
  using c
  unfolding attemptDownload_chunk_def Let_def
  by (auto split: if_splits option.splits prod.splits)

lemma chunk_throttle:
  assumes c: "attemptDownload_chunk dest stage pw cb tot r st = (err, st')"
    and mono: "t \<le> clock_check r" "clock_check r \<le> clock_speed r" "clock_speed r \<le> clock_reset r"
    and lu: "lastUpdate st \<le> t"
  shows "\<exists>new. effects st' = effects st @ new
     \<and> 100000000 * int (length (filter is_Callback new)) \<le> lastUpdate st' - lastUpdate st
     \<and> lastUpdate st' \<le> clock_reset r
     \<and> (\<forall>a n. Callback a n \<in> set new \<longrightarrow> 100000000 \<le> snd (speed_arg a))"
proof -
  from chunk_timing [OF c] obtain new where
    n: "effects st' = effects st @ new"
    and k: "filter is_Callback new = [] \<and> lastUpdate st' = lastUpdate st
        \<or> length (filter is_Callback new) = 1 \<and> lastUpdate st' = clock_reset r
          \<and> 100000000 \<le> clock_check r - lastUpdate st"
    and s: "\<forall>a n. Callback a n \<in> set new \<longrightarrow>
           snd (speed_arg a) = clock_speed r - lastUpdate st
           \<and> 100000000 \<le> clock_check r - lastUpdate st"
    by blast
  from k mono lu
  have "100000000 * int (length (filter is_Callback new)) \<le> lastUpdate st' - lastUpdate st"
    by auto
  moreover from k mono lu have "lastUpdate st' \<le> clock_reset r" by auto
  moreover from s mono have "\<forall>a n. Callback a n \<in> set new \<longrightarrow> 100000000 \<le> snd (speed_arg a)"
    by auto
  ultimately show ?thesis using n by blast
qed

lemma loop_throttle:
  assumes "attemptDownload_loop dest stage pw cb tot b st = (err, st')"
    and "clock_monotone t b" and "lastUpdate st \<le> t"
  shows "\<exists>new. effects st' = effects st @ new
     \<and> 100000000 * int (length (filter is_Callback new)) \<le> lastUpdate st' - lastUpdate st
     \<and> lastUpdate st' \<le> end_clock b
     \<and> (\<forall>a n. Callback a n \<in> set new \<longrightarrow> 100000000 \<le> snd (speed_arg a))"
  using assms
proof (induction b arbitrary: st t)
  case (Last r e)
  obtain e1 st1 where c: "attemptDownload_chunk dest stage pw cb tot r st = (e1, st1)"
    by (cases "attemptDownload_chunk dest stage pw cb tot r st")
  from Last.prems(1) c have st': "st' = st1"
    by (auto split: option.splits read_end.splits)
  from Last.prems(2) have "t \<le> clock_check r" "clock_check r \<le> clock_speed r"
      "clock_speed r \<le> clock_reset r"
    by simp_all
  from chunk_throttle [OF c this Last.prems(3)] st' show ?case by simp
next
  case (Next r b)
  obtain e1 st1 where c: "attemptDownload_chunk dest stage pw cb tot r st = (e1, st1)"
    by (cases "attemptDownload_chunk dest stage pw cb tot r st")
  from Next.prems(2) have m: "t \<le> clock_check r" "clock_check r \<le> clock_speed r"
      "clock_speed r \<le> clock_reset r" and mb: "clock_monotone (clock_reset r) b"
    by simp_all
  from chunk_throttle [OF c m Next.prems(3)] obtain new1 where
    n1: "effects st1 = effects st @ new1"
    and k1: "100000000 * int (length (filter is_Callback new1)) \<le> lastUpdate st1 - lastUpdate st"
    and u1: "lastUpdate st1 \<le> clock_reset r"
    and s1: "\<forall>a n. Callback a n \<in> set new1 \<longrightarrow> 100000000 \<le> snd (speed_arg a)"
    by blast
  show ?case
  proof (cases e1)
    case (Some x)
    with Next.prems(1) c have "st' = st1" by simp
    moreover from u1 clock_monotone_end [OF mb] have "lastUpdate st1 \<le> end_clock (Next r b)"
      by simp
    ultimately show ?thesis using n1 k1 s1 by blast
  next
    case None
    with Next.prems(1) c have l: "attemptDownload_loop dest stage pw cb tot b st1 = (err, st')"
      by simp
    from Next.IH [OF l mb u1] obtain new2 where
      n2: "effects st' = effects st1 @ new2"
      and k2: "100000000 * int (length (filter is_Callback new2)) \<le> lastUpdate st' - lastUpdate st1"
      and u2: "lastUpdate st' \<le> end_clock b"
      and s2: "\<forall>a n. Callback a n \<in> set new2 \<longrightarrow> 100000000 \<le> snd (speed_arg a)"
      by blast
    have "effects st' = effects st @ (new1 @ new2)" by (simp add: n1 n2)
    moreover have "100000000 * int (length (filter is_Callback (new1 @ new2)))
                     \<le> lastUpdate st' - lastUpdate st"
      using k1 k2 by (simp add: algebra_simps)
    moreover have "lastUpdate st' \<le> end_clock (Next r b)" using u2 by simp
    moreover have "\<forall>a n. Callback a n \<in> set (new1 @ new2) \<longrightarrow> 100000000 \<le> snd (speed_arg a)"
      using s1 s2 by auto
    ultimately show ?thesis by blast
  qed
qed

lemma transfer_run:
  assumes run: "attemptDownload_transfer dest stage pw cb env resp rf fs tr = (err, fs', tr')"
  obtains (open_failed) e where "err = Some e" "fs' = fs"
      "tr' = tr @ [if StatusCode resp = 206 then OpenAppend (dest @ ''.tmp'')
                   else Create (dest @ ''.tmp''), CloseBody]"
  | (looped) content lerr st where
      "if StatusCode resp = 206 then fs (dest @ ''.tmp'') = Some content else content = []"
      "attemptDownload_loop dest stage pw cb
         (ContentLength resp + (if StatusCode resp = 206 then rf else 0)) (Body resp)
         \<lparr>file_content = content,
          downloaded = (if StatusCode resp = 206 then rf else 0),
          lastUpdate = clock_start env,
          lastDownloaded = (if StatusCode resp = 206 then rf else 0),
          effects = tr @ [if StatusCode resp = 206 then OpenAppend (dest @ ''.tmp'')
                          else Create (dest @ ''.tmp'')]\<rparr> = (lerr, st)"
      "lerr \<noteq> None \<longrightarrow> err = lerr
         \<and> tr' = effects st @ [CloseFile (dest @ ''.tmp''), CloseBody]"
      "lerr = None \<longrightarrow> err = rename_err env
         \<and> tr' = effects st @ [CloseFile (dest @ ''.tmp''), Rename (dest @ ''.tmp'') dest,
                              CloseFile (dest @ ''.tmp''), CloseBody]"
      "if err = None then fs' dest = Some (file_content st) \<and> fs' (dest @ ''.tmp'') = None
       else fs' (dest @ ''.tmp'') = Some (file_content st) \<and> fs' dest = fs dest"
proof -
  let ?tmp = "dest @ ''.tmp''"
  let ?ev = "if StatusCode resp = 206 then OpenAppend ?tmp else Create ?tmp"
  let ?rf = "if StatusCode resp = 206 then rf else 0"
  show thesis
  proof (cases "if StatusCode resp = 206
                then (case OpenFile_append (open_err env) fs ?tmp of
                        Inl e \<Rightarrow> Inl e | Inr content \<Rightarrow> Inr (fs, content))
                else (case Create_file (open_err env) fs ?tmp of
                        Inl e \<Rightarrow> Inl e | Inr fs1 \<Rightarrow> Inr (fs1, []))")
    case (Inl e)
    with run have "err = Some e" "fs' = fs" "tr' = tr @ [?ev, CloseBody]"
      unfolding attemptDownload_transfer_def Let_def by (auto split: if_splits)
    then show ?thesis by (rule open_failed)
  next
    case (Inr opened)
    obtain fs1 content where opened: "opened = (fs1, content)" by (cases opened)
    let ?st0 = "\<lparr>file_content = content, downloaded = ?rf, lastUpdate = clock_start env,
        lastDownloaded = ?rf, effects = tr @ [?ev]\<rparr>"
    obtain lerr st where
      loop: "attemptDownload_loop dest stage pw cb (ContentLength resp + ?rf) (Body resp) ?st0
               = (lerr, st)"
      by (cases "attemptDownload_loop dest stage pw cb (ContentLength resp + ?rf) (Body resp) ?st0")
    from Inr opened
    have c: "if StatusCode resp = 206 then fs ?tmp = Some content else content = []"
      and fs1: "fs1 dest = fs dest"
      by (auto simp: OpenFile_append_def Create_file_def split: if_splits option.splits sum.splits)
    have 1: "lerr \<noteq> None \<longrightarrow> err = lerr \<and> tr' = effects st @ [CloseFile ?tmp, CloseBody]"
      using run Inr opened loop
      unfolding attemptDownload_transfer_def Let_def
      by (auto split: if_splits)
    have 2: "lerr = None \<longrightarrow> err = rename_err env
         \<and> tr' = effects st @ [CloseFile ?tmp, Rename ?tmp dest, CloseFile ?tmp, CloseBody]"
      using run Inr opened loop
      unfolding attemptDownload_transfer_def Let_def
      by (auto simp: Rename_file_def split: if_splits option.splits sum.splits)
    have 3: "if err = None then fs' dest = Some (file_content st) \<and> fs' ?tmp = None
       else fs' ?tmp = Some (file_content st) \<and> fs' dest = fs dest"
      using run Inr opened loop fs1
      unfolding attemptDownload_transfer_def Let_def
      by (auto simp: Rename_file_def split: if_splits option.splits sum.splits)
    from c loop 1 2 3 show ?thesis by (rule looped)
  qed
qed

lemma attemptDownload_run:
  assumes run: "attemptDownload dest url stage pw cb env fs = (err, fs', tr)"
    and sent: "Do c u hs \<in> set tr"
    and resp: "do_result env hs = Inr resp"
  obtains (rejected) "StatusCode resp \<noteq> 200" "StatusCode resp \<noteq> 206"
      "tr = [MkdirAll dest, Stat (dest @ ''.tmp''), Do SharedClient url hs, CloseBody]"
      "err = Some (UnexpectedStatus (StatusCode resp))"
  | (transfer) "StatusCode resp = 200 \<or> StatusCode resp = 206"
      "attemptDownload_transfer dest stage pw cb env resp
         (case Stat_Size fs (dest @ ''.tmp'') of Some sz \<Rightarrow> sz | None \<Rightarrow> 0) fs
         [MkdirAll dest, Stat (dest @ ''.tmp''), Do SharedClient url hs] = (err, fs', tr)"
proof -
  from sent have "Do c u hs \<in> set (filter is_Do tr)" by simp
  then have ok: "mkdir_err env = None" "request_err env = None"
    and hs: "hs = [(''Accept'', ''*/*''), (''Accept-Encoding'', ''identity''),
                (''Connection'', ''keep-alive''), (''User-Agent'', ''HyPrism/1.0'')] @
               (case Stat_Size fs (dest @ ''.tmp'') of
                  None \<Rightarrow> []
                | Some sz \<Rightarrow>
                    if 0 <s sz then [(''Range'', ''bytes='' @ show_int (sint sz) @ ''-'')]
                    else [])"
    unfolding attemptDownload_Do [OF run] by (auto split: if_splits)
  have hs': "hs = [(''Accept'', ''*/*''), (''Accept-Encoding'', ''identity''),
                (''Connection'', ''keep-alive''), (''User-Agent'', ''HyPrism/1.0'')] @
               (if 0 <s (case Stat_Size fs (dest @ ''.tmp'') of Some sz \<Rightarrow> sz | None \<Rightarrow> 0)
                then [(''Range'', ''bytes='' @ show_int (sint
                        (case Stat_Size fs (dest @ ''.tmp'') of Some sz \<Rightarrow> sz | None \<Rightarrow> 0)) @ ''-'')]
                else [])"
    unfolding hs by (simp split: option.splits)
  show thesis
  proof (cases "StatusCode resp = 200 \<or> StatusCode resp = 206")
    case True
    moreover from run ok resp True
    have "attemptDownload_transfer dest stage pw cb env resp
         (case Stat_Size fs (dest @ ''.tmp'') of Some sz \<Rightarrow> sz | None \<Rightarrow> 0) fs
         [MkdirAll dest, Stat (dest @ ''.tmp''), Do SharedClient url hs] = (err, fs', tr)"
      unfolding attemptDownload_def Let_def hs' [symmetric] by auto
    ultimately show ?thesis by (rule transfer)
  next
    case False
    then have "StatusCode resp \<noteq> 200" "StatusCode resp \<noteq> 206" by simp_all
    moreover from run ok resp False
    have "tr = [MkdirAll dest, Stat (dest @ ''.tmp''), Do SharedClient url hs, CloseBody]"
      "err = Some (UnexpectedStatus (StatusCode resp))"
      unfolding attemptDownload_def Let_def hs' [symmetric] by auto
    ultimately show ?thesis by (rule rejected)
  qed
qed

lemma transfer_events_no_open:
  "list_all is_transfer_event new \<Longrightarrow> OpenAppend p \<notin> set new \<and> Create p \<notin> set new"
  by (induction new) auto

lemma no_Callback: "filter is_Callback tr = [] \<Longrightarrow> Callback a n \<notin> set tr"
  by (induction tr) (auto split: if_splits)

lemma attemptDownload_reports:
  assumes run: "attemptDownload dest url stage pw cb env fs = (err, fs', tr)"
    and sent: "Do c u hs \<in> set tr"
    and resp: "do_result env hs = Inr resp"
  shows "(StatusCode resp = 206 \<longrightarrow>
            OpenAppend (dest @ ''.tmp'') \<in> set tr \<and> Create (dest @ ''.tmp'') \<notin> set tr)
       \<and> (StatusCode resp = 200 \<longrightarrow>
            Create (dest @ ''.tmp'') \<in> set tr \<and> OpenAppend (dest @ ''.tmp'') \<notin> set tr)
       \<and> (\<forall>a n. Callback a n \<in> set tr \<longrightarrow>
            cb \<and> total_arg a = ContentLength resp +
                   (if StatusCode resp = 206
                    then (case fs (dest @ ''.tmp'') of Some c \<Rightarrow> of_nat (length c) | None \<Rightarrow> 0)
                    else 0)
            \<and> progress_arg a = (downloaded_arg a, total_arg a, pw)
            \<and> downloaded_arg a = of_nat n
            \<and> (\<exists>c. (if err = None then fs' dest else fs' (dest @ ''.tmp'')) = Some c
                   \<and> n \<le> length c))
       \<and> (err = None \<longrightarrow>
            fs' dest = Some ((if StatusCode resp = 206
                              then (case fs (dest @ ''.tmp'') of Some c \<Rightarrow> c | None \<Rightarrow> [])
                              else []) @ body_data (Body resp)))
       \<and> (err = None \<and> StatusCode resp = 206 \<longrightarrow> fs (dest @ ''.tmp'') \<noteq> None)"
proof -
  let ?tmp = "dest @ ''.tmp''"
  let ?tr0 = "[MkdirAll dest, Stat ?tmp, Do SharedClient url hs]"
  let ?ev = "if StatusCode resp = 206 then OpenAppend ?tmp else Create ?tmp"
  let ?rf0 = "case Stat_Size fs ?tmp of Some sz \<Rightarrow> sz | None \<Rightarrow> 0"
  let ?rf = "if StatusCode resp = 206 then ?rf0 else 0"
  from run sent resp show ?thesis
  proof (cases rule: attemptDownload_run)
    case rejected
    then show ?thesis by auto
  next
    case transfer
    from transfer(2) show ?thesis
    proof (cases rule: transfer_run)
      case (open_failed e)
      then show ?thesis by auto
    next
      case (looped content lerr st)
      let ?st0 = "\<lparr>file_content = content, downloaded = ?rf, lastUpdate = clock_start env,
          lastDownloaded = ?rf, effects = ?tr0 @ [?ev]\<rparr>"
      have inv: "downloaded ?st0 = of_nat (length (file_content ?st0))"
        using looped(1) by (auto simp: Stat_Size_def)
      from loop_effects [OF looped(2)] obtain new where
        new: "effects st = (?tr0 @ [?ev]) @ new" and tev: "list_all is_transfer_event new"
        by auto
      from loop_reports [OF looped(2) inv] new obtain
        rep: "\<forall>a n. Callback a n \<in> set new \<longrightarrow>
           cb \<and> total_arg a = ContentLength resp + ?rf
           \<and> progress_arg a = (downloaded_arg a, ContentLength resp + ?rf, pw)
           \<and> downloaded_arg a = of_nat n \<and> n \<le> length (file_content st)"
        and dat: "lerr = None \<longrightarrow> file_content st = content @ body_data (Body resp)"
        by auto
      have rf: "?rf = (if StatusCode resp = 206
                    then (case fs ?tmp of Some c \<Rightarrow> of_nat (length c) | None \<Rightarrow> 0)
                    else 0)"
        by (simp add: Stat_Size_def split: option.splits)
      have content: "content = (if StatusCode resp = 206
                              then (case fs ?tmp of Some c \<Rightarrow> c | None \<Rightarrow> [])
                              else [])"
        using looped(1) by (auto split: if_splits)
      have lerr: "err = None \<longrightarrow> lerr = None"
        using looped(3) by auto
      have tr: "\<exists>closing. tr = ?tr0 @ [?ev] @ new @ closing
                \<and> (\<forall>a n. Callback a n \<notin> set closing)
                \<and> (\<forall>p. OpenAppend p \<notin> set closing \<and> Create p \<notin> set closing)"
        using looped(3,4) new by (cases lerr) auto
      then obtain closing where
        tr': "tr = ?tr0 @ [?ev] @ new @ closing"
        and cl: "\<forall>a n. Callback a n \<notin> set closing"
          "\<forall>p. OpenAppend p \<notin> set closing \<and> Create p \<notin> set closing"
        by blast
      have cbs: "Callback a n \<in> set new" if "Callback a n \<in> set tr" for a n
        using that cl(1) unfolding tr' by (auto split: if_splits)
      have onDisk: "\<exists>c. (if err = None then fs' dest else fs' ?tmp) = Some c
                   \<and> length (file_content st) \<le> length c"
        using looped(5) by (auto split: if_splits)
      have 1: "StatusCode resp = 206 \<longrightarrow> OpenAppend ?tmp \<in> set tr \<and> Create ?tmp \<notin> set tr"
        using transfer_events_no_open [OF tev] cl(2) unfolding tr' by auto
      have 2: "StatusCode resp = 200 \<longrightarrow> Create ?tmp \<in> set tr \<and> OpenAppend ?tmp \<notin> set tr"
        using transfer_events_no_open [OF tev] cl(2) unfolding tr' by auto
      have 3: "\<forall>a n. Callback a n \<in> set tr \<longrightarrow>
            cb \<and> total_arg a = ContentLength resp +
                   (if StatusCode resp = 206
                    then (case fs ?tmp of Some c \<Rightarrow> of_nat (length c) | None \<Rightarrow> 0)
                    else 0)
            \<and> progress_arg a = (downloaded_arg a, total_arg a, pw)
            \<and> downloaded_arg a = of_nat n
            \<and> (\<exists>c. (if err = None then fs' dest else fs' ?tmp) = Some c \<and> n \<le> length c)"
      proof (intro allI impI)
        fix a n
        assume "Callback a n \<in> set tr"
        from rep [rule_format, OF cbs [OF this]] onDisk
        show "cb \<and> total_arg a = ContentLength resp +
                   (if StatusCode resp = 206
                    then (case fs ?tmp of Some c \<Rightarrow> of_nat (length c) | None \<Rightarrow> 0)
                    else 0)
            \<and> progress_arg a = (downloaded_arg a, total_arg a, pw)
            \<and> downloaded_arg a = of_nat n
            \<and> (\<exists>c. (if err = None then fs' dest else fs' ?tmp) = Some c \<and> n \<le> length c)"
          unfolding rf [symmetric] by (metis le_trans)
      qed
      have 4: "err = None \<longrightarrow>
            fs' dest = Some ((if StatusCode resp = 206
                              then (case fs ?tmp of Some c \<Rightarrow> c | None \<Rightarrow> [])
                              else []) @ body_data (Body resp))"
        using looped(5) lerr dat content by auto
      have 5: "err = None \<and> StatusCode resp = 206 \<longrightarrow> fs ?tmp \<noteq> None"
        using looped(1) by auto
      from 1 2 3 4 5 show ?thesis by (intro conjI)
    qed
  qed
qed

lemma attemptDownload_throttle:
  assumes run: "attemptDownload dest url stage pw cb env fs = (err, fs', tr)"
    and sent: "Do c u hs \<in> set tr"
    and resp: "do_result env hs = Inr resp"
    and mono: "clock_monotone (clock_start env) (Body resp)"
  shows "100000000 * int (length (filter is_Callback tr)) \<le> end_clock (Body resp) - clock_start env
       \<and> (\<forall>a n. Callback a n \<in> set tr \<longrightarrow> 100000000 \<le> snd (speed_arg a))"
proof -
  let ?tmp = "dest @ ''.tmp''"
  let ?tr0 = "[MkdirAll dest, Stat ?tmp, Do SharedClient url hs]"
  let ?ev = "if StatusCode resp = 206 then OpenAppend ?tmp else Create ?tmp"
  note nonneg = clock_monotone_end [OF mono]
  from run sent resp show ?thesis
  proof (cases rule: attemptDownload_run)
    case rejected
    with nonneg show ?thesis by auto
  next
    case transfer
    from transfer(2) show ?thesis
    proof (cases rule: transfer_run)
      case (open_failed e)
      with nonneg show ?thesis by auto
    next
      case (looped content lerr st)
      from loop_throttle [OF looped(2) mono] obtain new where
        new: "effects st = (?tr0 @ [?ev]) @ new"
        and k: "100000000 * int (length (filter is_Callback new)) \<le> lastUpdate st - clock_start env"
        and u: "lastUpdate st \<le> end_clock (Body resp)"
        and s: "\<forall>a n. Callback a n \<in> set new \<longrightarrow> 100000000 \<le> snd (speed_arg a)"
        by auto
      have "\<exists>closing. tr = ?tr0 @ [?ev] @ new @ closing \<and> filter is_Callback closing = []
              \<and> (\<forall>a n. Callback a n \<notin> set closing)"
        using looped(3,4) new by (cases lerr) auto
      then obtain closing where tr': "tr = ?tr0 @ [?ev] @ new @ closing"
        and cl: "filter is_Callback closing = []" "\<forall>a n. Callback a n \<notin> set closing"
        by blast
      have "filter is_Callback tr = filter is_Callback new"
        unfolding tr' using cl(1) by simp
      moreover have "Callback a n \<in> set new" if "Callback a n \<in> set tr" for a n
        using that cl(2) unfolding tr' by (auto split: if_splits)
      ultimately show ?thesis using k u s by auto
    qed
  qed
qed

text \<open>
  C4. In an attempt that got the response \<open>resp\<close>: on status 206 the temp file is
  opened for appending (not created) and \<open>total\<close>, as every callback call reports it, is
  the response's content length plus the resume offset (the size of the temp file); on
  status 200 the temp file is created anew and \<open>total\<close> is the content length alone,
  whatever the size of the temp file was, and this is also the denominator of the
  progress value. A successful attempt leaves at the destination the old temp content
  followed by the body on 206, and the body alone on 200.
\<close>

theorem total_after_reset:
  assumes run: "attemptDownload dest url stage progressWeight callback env fs = (err, fs', tr)"
    and sent: "Do SharedClient url hs \<in> set tr"
    and resp: "do_result env hs = Inr resp"
  shows "(StatusCode resp = 206 \<longrightarrow>
            OpenAppend (dest @ ''.tmp'') \<in> set tr \<and> Create (dest @ ''.tmp'') \<notin> set tr
            \<and> (\<forall>a n. Callback a n \<in> set tr \<longrightarrow>
                  total_arg a = ContentLength resp +
                    (case fs (dest @ ''.tmp'') of Some c \<Rightarrow> of_nat (length c) | None \<Rightarrow> 0)
                  \<and> progress_arg a = (downloaded_arg a, total_arg a, progressWeight))
            \<and> (err = None \<longrightarrow>
                  (\<exists>c. fs (dest @ ''.tmp'') = Some c
                     \<and> fs' dest = Some (c @ body_data (Body resp)))))
       \<and> (StatusCode resp = 200 \<longrightarrow>
            Create (dest @ ''.tmp'') \<in> set tr \<and> OpenAppend (dest @ ''.tmp'') \<notin> set tr
            \<and> (\<forall>a n. Callback a n \<in> set tr \<longrightarrow>
                  total_arg a = ContentLength resp
                  \<and> progress_arg a = (downloaded_arg a, ContentLength resp, progressWeight))
            \<and> (err = None \<longrightarrow> fs' dest = Some (body_data (Body resp))))"
proof (intro conjI impI)
  note r = attemptDownload_reports [OF run sent resp]
  {
    assume s: "StatusCode resp = 206"
    from r s show "OpenAppend (dest @ ''.tmp'') \<in> set tr" "Create (dest @ ''.tmp'') \<notin> set tr"
      by simp_all
    from r s show "\<forall>a n. Callback a n \<in> set tr \<longrightarrow>
                  total_arg a = ContentLength resp +
                    (case fs (dest @ ''.tmp'') of Some c \<Rightarrow> of_nat (length c) | None \<Rightarrow> 0)
                  \<and> progress_arg a = (downloaded_arg a, total_arg a, progressWeight)"
      by simp
    assume ok: "err = None"
    from r s ok have "fs (dest @ ''.tmp'') \<noteq> None" by simp
    with r s ok show "\<exists>c. fs (dest @ ''.tmp'') = Some c
                     \<and> fs' dest = Some (c @ body_data (Body resp))"
      by auto
  }
  {
    assume s: "StatusCode resp = 200"
    from r s show "Create (dest @ ''.tmp'') \<in> set tr" "OpenAppend (dest @ ''.tmp'') \<notin> set tr"
      by simp_all
    from r s show "\<forall>a n. Callback a n \<in> set tr \<longrightarrow>
                  total_arg a = ContentLength resp
                  \<and> progress_arg a = (downloaded_arg a, ContentLength resp, progressWeight)"
      by simp
    assume ok: "err = None"
    with r s show "fs' dest = Some (body_data (Body resp))" by simp
  }
qed

theorem total_after_reset_witness:
  "Do SharedClient ''http://h/f''
      [(''Accept'', ''*/*''), (''Accept-Encoding'', ''identity''),
       (''Connection'', ''keep-alive''), (''User-Agent'', ''HyPrism/1.0''),
       (''Range'', ''bytes=3-'')]
     \<in> set (snd (snd (attemptDownload ''/d/f'' ''http://h/f'' ''download'' 1 True env_full
                 [''/d/f.tmp'' \<mapsto> ''abc''])))
   \<and> reports (snd (snd (attemptDownload ''/d/f'' ''http://h/f'' ''download'' 1 True env_full
                 [''/d/f.tmp'' \<mapsto> ''abc'']))) = [(5, 5, 5)]
   \<and> fst (snd (attemptDownload ''/d/f'' ''http://h/f'' ''download'' 1 True env_full
                 [''/d/f.tmp'' \<mapsto> ''abc''])) ''/d/f'' = Some ''hello''
   \<and> reports (snd (snd (attemptDownload ''/d/f'' ''http://h/f'' ''download'' 1 True env_partial
                 [''/d/f.tmp'' \<mapsto> ''abc'']))) = [(8, 8, 8)]
   \<and> fst (snd (attemptDownload ''/d/f'' ''http://h/f'' ''download'' 1 True env_partial
                 [''/d/f.tmp'' \<mapsto> ''abc''])) ''/d/f'' = Some ''abchello''"
proof -
  let ?fs = "[''/d/f.tmp'' \<mapsto> ''abc'']"
  let ?hs = "[(''Accept'', ''*/*''), (''Accept-Encoding'', ''identity''),
       (''Connection'', ''keep-alive''), (''User-Agent'', ''HyPrism/1.0''),
       (''Range'', ''bytes=3-'')]"
  let ?A = "attemptDownload ''/d/f'' ''http://h/f'' ''download'' 1 True env_full ?fs"
  let ?B = "attemptDownload ''/d/f'' ''http://h/f'' ''download'' 1 True env_partial ?fs"
  let ?body = "Last (chunk_at ''hello'' 150000000) EOF"
  have a1: "?A = (fst ?A, fst (snd ?A), snd (snd ?A))" by simp
  have a2: "Do SharedClient ''http://h/f'' ?hs \<in> set (snd (snd ?A))" by code_simp
  have a3: "do_result env_full ?hs = Inr \<lparr>StatusCode = 200, ContentLength = 5, Body = ?body\<rparr>"
    by (simp add: env_full_def)
  have a4: "fst ?A = None" by code_simp
  have a5: "reports (snd (snd ?A)) = [(5, 5, 5)]" by code_simp
  have b1: "?B = (fst ?B, fst (snd ?B), snd (snd ?B))" by simp
  have b2: "Do SharedClient ''http://h/f'' ?hs \<in> set (snd (snd ?B))" by code_simp
  have b3: "do_result env_partial ?hs = Inr \<lparr>StatusCode = 206, ContentLength = 5, Body = ?body\<rparr>"
    by (simp add: env_partial_def)
  have b4: "fst ?B = None" by code_simp
  have b5: "reports (snd (snd ?B)) = [(8, 8, 8)]" by code_simp
  from total_after_reset [OF a1 a2 a3] a4
  have "fst (snd ?A) ''/d/f'' = Some ''hello''" by (simp add: chunk_at_def)
  moreover from total_after_reset [OF b1 b2 b3] b4
  have "fst (snd ?B) ''/d/f'' = Some ''abchello''" by (simp add: chunk_at_def)
  ultimately show ?thesis using a2 a5 b5 by simp
qed

text \<open>
  C7. In an attempt that got the response \<open>resp\<close>, with a clock that does not run
  backwards: the callback is called only if one is registered; each call reports as
  \<open>downloaded\<close> the number of bytes the temp file holds at that moment (the resume
  offset plus what was written so far), which is at most the size of the file the
  attempt leaves; each call comes at least 100 ms after the timer was last reset (at the
  previous call, or at the start of the stream), so \<open>k\<close> calls need at least
  \<open>k\<close> times 100 ms of wall time.
\<close>

theorem progress_throttled:
  assumes run: "attemptDownload dest url stage progressWeight callback env fs = (err, fs', tr)"
    and sent: "Do SharedClient url hs \<in> set tr"
    and resp: "do_result env hs = Inr resp"
    and mono: "clock_monotone (clock_start env) (Body resp)"
  shows "(\<forall>a n. Callback a n \<in> set tr \<longrightarrow>
            callback
            \<and> downloaded_arg a = of_nat n
            \<and> (n < 2 ^ 63 \<longrightarrow> sint (downloaded_arg a) = int n)
            \<and> (\<exists>c. (if err = None then fs' dest else fs' (dest @ ''.tmp'')) = Some c
                   \<and> n \<le> length c)
            \<and> 100000000 \<le> snd (speed_arg a))
       \<and> 100000000 * int (length (filter is_Callback tr))
            \<le> end_clock (Body resp) - clock_start env"
proof -
  note r = attemptDownload_reports [OF run sent resp]
  note t = attemptDownload_throttle [OF run sent resp mono]
  have "callback \<and> downloaded_arg a = of_nat n
            \<and> (n < 2 ^ 63 \<longrightarrow> sint (downloaded_arg a) = int n)
            \<and> (\<exists>c. (if err = None then fs' dest else fs' (dest @ ''.tmp'')) = Some c
                   \<and> n \<le> length c)
            \<and> 100000000 \<le> snd (speed_arg a)"
    if cb: "Callback a n \<in> set tr" for a n
  proof -
    from r cb have 1: "callback" "downloaded_arg a = of_nat n"
      "\<exists>c. (if err = None then fs' dest else fs' (dest @ ''.tmp'')) = Some c \<and> n \<le> length c"
      by blast+
    from t cb have 2: "100000000 \<le> snd (speed_arg a)" by blast
    from 1(2) have "n < 2 ^ 63 \<longrightarrow> sint (downloaded_arg a) = int n"
      by (simp add: sint_of_nat_int64)
    with 1 2 show ?thesis by blast
  qed
  with t show ?thesis by blast
qed

theorem progress_throttled_witness:
  "Do SharedClient ''http://h/f''
      [(''Accept'', ''*/*''), (''Accept-Encoding'', ''identity''),
       (''Connection'', ''keep-alive''), (''User-Agent'', ''HyPrism/1.0'')]
     \<in> set (snd (snd (attemptDownload ''/d/f'' ''http://h/f'' ''download'' 1 True env_three
                 Map.empty)))
   \<and> clock_monotone 0
        (Next (chunk_at ''ab'' 50000000)
           (Next (chunk_at ''cd'' 150000000) (Last (chunk_at ''ef'' 160000000) EOF)))
   \<and> reports (snd (snd (attemptDownload ''/d/f'' ''http://h/f'' ''download'' 1 True env_three
                 Map.empty))) = [(4, 6, 4)]
   \<and> fst (snd (attemptDownload ''/d/f'' ''http://h/f'' ''download'' 1 True env_three
                 Map.empty)) ''/d/f'' = Some ''abcdef''
   \<and> 100000000 * int (length (filter is_Callback
        (snd (snd (attemptDownload ''/d/f'' ''http://h/f'' ''download'' 1 True env_three
                 Map.empty))))) \<le> 160000000"
proof -
  let ?hs = "[(''Accept'', ''*/*''), (''Accept-Encoding'', ''identity''),
       (''Connection'', ''keep-alive''), (''User-Agent'', ''HyPrism/1.0'')]"
  let ?A = "attemptDownload ''/d/f'' ''http://h/f'' ''download'' 1 True env_three Map.empty"
  let ?body = "Next (chunk_at ''ab'' 50000000)
           (Next (chunk_at ''cd'' 150000000) (Last (chunk_at ''ef'' 160000000) EOF))"
  have a1: "?A = (fst ?A, fst (snd ?A), snd (snd ?A))" by simp
  have a2: "Do SharedClient ''http://h/f'' ?hs \<in> set (snd (snd ?A))" by code_simp
  have a3: "do_result env_three ?hs = Inr \<lparr>StatusCode = 200, ContentLength = 6, Body = ?body\<rparr>"
    by (simp add: env_three_def)
  have m: "clock_monotone 0 ?body" by (simp add: chunk_at_def)
  then have a4: "clock_monotone (clock_start env_three)
      (Body \<lparr>StatusCode = 200, ContentLength = 6, Body = ?body\<rparr>)"
    by (simp add: env_three_def)
  have a5: "reports (snd (snd ?A)) = [(4, 6, 4)]" by code_simp
  have a6: "fst (snd ?A) ''/d/f'' = Some ''abcdef''" by code_simp
  from progress_throttled [OF a1 a2 a3 a4]
  have "100000000 * int (length (filter is_Callback (snd (snd ?A)))) \<le> 160000000"
    by (simp add: env_three_def chunk_at_def)
  with a2 m a5 a6 show ?thesis by simp
qed

subsection \<open>DownloadFile writes the destination in place\<close>

lemma DownloadFile_chunk_run:
  assumes "DownloadFile_chunk dest cb tot t0 r st = (err, st')"
  shows "\<exists>new. out_effects st' = out_effects st @ new
     \<and> (\<forall>e \<in> set new. \<not> is_Rename e \<and> \<not> is_Do e \<and> file_of e \<in> {None, Some dest})
     \<and> (err = None \<longleftrightarrow> write_ok r)
     \<and> out_content st' = out_content st @
          (case write_fault r of
             Some (m, e) \<Rightarrow> if data r = [] then [] else take m (data r)
           | None \<Rightarrow> data r)"
  using assms
  unfolding DownloadFile_chunk_def Let_def write_ok_def
  by (auto split: if_splits option.splits prod.splits)

lemma DownloadFile_loop_run:
  assumes "DownloadFile_loop dest cb tot t0 b st = (err, st')"
  shows "\<exists>new. out_effects st' = out_effects st @ new
     \<and> (\<forall>e \<in> set new. \<not> is_Rename e \<and> \<not> is_Do e \<and> file_of e \<in> {None, Some dest})
     \<and> (err = None \<longleftrightarrow> clean_EOF b)
     \<and> out_content st' = out_content st @ stored b"
  using assms
proof (induction b arbitrary: st)
  case (Last r e)
  obtain e1 st1 where c: "DownloadFile_chunk dest cb tot t0 r st = (e1, st1)"
    by (cases "DownloadFile_chunk dest cb tot t0 r st")
  from Last.prems c have st': "st' = st1"
    and err: "err = None \<longleftrightarrow> e1 = None \<and> e = EOF"
    by (auto split: option.splits read_end.splits)
  from DownloadFile_chunk_run [OF c] st' err show ?case
    by (auto split: option.splits if_splits)
next
  case (Next r b)
  obtain e1 st1 where c: "DownloadFile_chunk dest cb tot t0 r st = (e1, st1)"
    by (cases "DownloadFile_chunk dest cb tot t0 r st")
  from DownloadFile_chunk_run [OF c] obtain new1 where
    n1: "out_effects st1 = out_effects st @ new1"
    and p1: "\<forall>e \<in> set new1. \<not> is_Rename e \<and> \<not> is_Do e \<and> file_of e \<in> {None, Some dest}"
    and w1: "e1 = None \<longleftrightarrow> write_ok r"
    and c1: "out_content st1 = out_content st @
          (case write_fault r of
             Some (m, e) \<Rightarrow> if data r = [] then [] else take m (data r)
           | None \<Rightarrow> data r)"
    by blast
  show ?case
  proof (cases e1)
    case (Some x)
    with Next.prems c have "st' = st1" "err \<noteq> None" by auto
    moreover from Some w1 have "\<not> write_ok r" by simp
    ultimately show ?thesis
      using n1 p1 c1 by (auto simp: write_ok_def split: option.splits)
  next
    case None
    with Next.prems c have l: "DownloadFile_loop dest cb tot t0 b st1 = (err, st')"
      by simp
    from Next.IH [OF l] obtain new2 where
      n2: "out_effects st' = out_effects st1 @ new2"
      and p2: "\<forall>e \<in> set new2. \<not> is_Rename e \<and> \<not> is_Do e \<and> file_of e \<in> {None, Some dest}"
      and w2: "err = None \<longleftrightarrow> clean_EOF b"
      and c2: "out_content st' = out_content st1 @ stored b"
      by blast
    from None w1 have ok: "write_ok r" by simp
    have "out_effects st' = out_effects st @ (new1 @ new2)" by (simp add: n1 n2)
    moreover have "\<forall>e \<in> set (new1 @ new2).
        \<not> is_Rename e \<and> \<not> is_Do e \<and> file_of e \<in> {None, Some dest}"
      using p1 p2 by auto
    moreover have "err = None \<longleftrightarrow> clean_EOF (Next r b)" using w2 ok by simp
    moreover have "out_content st' = out_content st @ stored (Next r b)"
      using c1 c2 ok by (auto simp: write_ok_def split: option.splits)
    ultimately show ?thesis by blast
  qed
qed

text \<open>
  C10. \<open>DownloadFile\<close> works on the destination itself: it never renames, touches no
  file but the destination (no temp file), sends \<open>Accept\<close> as its only header (no
  \<open>Range\<close>), and takes any status but 200 as an error. Once the destination is
  created, whatever happens, it holds the bytes stored so far: after a read or write
  failure in mid-stream the call returns the error and the destination keeps the partial
  content.
\<close>

theorem DownloadFile_not_atomic:
  assumes run: "DownloadFile url dest progressCallback env fs = (err, fs', tr)"
  shows "filter is_Rename tr = []
       \<and> (\<forall>e \<in> set tr. file_of e \<in> {None, Some dest})
       \<and> (\<forall>c u hs. Do c u hs \<in> set tr \<longrightarrow> hs = [(''Accept'', ''*/*'')])
       \<and> (\<forall>resp. mkdir_err env = None \<and> request_err env = None
              \<and> do_result env [(''Accept'', ''*/*'')] = Inr resp \<longrightarrow>
            (StatusCode resp \<noteq> 200 \<longrightarrow> err = Some (HTTPError (StatusCode resp)) \<and> fs' = fs)
            \<and> (StatusCode resp = 200 \<and> open_err env = None \<longrightarrow>
                  fs' dest = Some (stored (Body resp))
                  \<and> (err = None \<longleftrightarrow> clean_EOF (Body resp))))"
proof -
  let ?hs = "[(''Accept'', ''*/*'')]"
  let ?tr0 = "[MkdirAll dest, Do SharedClient url ?hs]"
  have main: "filter is_Rename tr = []
       \<and> (\<forall>e \<in> set tr. file_of e \<in> {None, Some dest})
       \<and> (\<forall>c u hs. Do c u hs \<in> set tr \<longrightarrow> hs = ?hs)
       \<and> fs' dest = Some (stored (Body resp))
       \<and> (err = None \<longleftrightarrow> clean_EOF (Body resp))"
    if ok: "mkdir_err env = None" "request_err env = None" "do_result env ?hs = Inr resp"
      "StatusCode resp = 200" "open_err env = None" for resp
  proof -
    let ?st0 = "\<lparr>out_content = [], out_downloaded = 0, out_effects = ?tr0 @ [Create dest]\<rparr>"
    obtain lerr st where l: "DownloadFile_loop dest progressCallback (ContentLength resp)
        (clock_start env) (Body resp) ?st0 = (lerr, st)"
      by (cases "DownloadFile_loop dest progressCallback (ContentLength resp)
        (clock_start env) (Body resp) ?st0")
    from run ok l have res: "err = lerr" "fs' = (fs(dest \<mapsto> []))(dest \<mapsto> out_content st)"
      "tr = out_effects st @ [CloseFile dest, CloseBody]"
      unfolding DownloadFile_def Let_def by (auto simp: Create_file_def)
    from DownloadFile_loop_run [OF l] obtain new where
      n: "out_effects st = (?tr0 @ [Create dest]) @ new"
      and p: "\<forall>e \<in> set new. \<not> is_Rename e \<and> \<not> is_Do e \<and> file_of e \<in> {None, Some dest}"
      and w: "lerr = None \<longleftrightarrow> clean_EOF (Body resp)"
      and c: "out_content st = stored (Body resp)"
      by auto
    have "filter is_Rename tr = []"
      using p unfolding res(3) n by (auto simp: filter_empty_conv)
    moreover have "\<forall>e \<in> set tr. file_of e \<in> {None, Some dest}"
      using p unfolding res(3) n by auto
    moreover have "\<forall>c u hs. Do c u hs \<in> set tr \<longrightarrow> hs = ?hs"
      using p unfolding res(3) n by auto
    ultimately show ?thesis using res w c by simp
  qed
  have other: "filter is_Rename tr = []
       \<and> (\<forall>e \<in> set tr. file_of e \<in> {None, Some dest})
       \<and> (\<forall>c u hs. Do c u hs \<in> set tr \<longrightarrow> hs = ?hs)
       \<and> fs' = fs
       \<and> (\<forall>resp. mkdir_err env = None \<and> request_err env = None
              \<and> do_result env ?hs = Inr resp \<and> StatusCode resp \<noteq> 200
            \<longrightarrow> err = Some (HTTPError (StatusCode resp)))"
    if nok: "\<not> (\<exists>resp. mkdir_err env = None \<and> request_err env = None
              \<and> do_result env ?hs = Inr resp \<and> StatusCode resp = 200 \<and> open_err env = None)"
    using run nok
    unfolding DownloadFile_def Let_def
    by (auto simp: Create_file_def split: option.splits sum.splits if_splits) metis
  show ?thesis
  proof (cases "\<exists>resp. mkdir_err env = None \<and> request_err env = None
              \<and> do_result env ?hs = Inr resp \<and> StatusCode resp = 200 \<and> open_err env = None")
    case True
    then obtain resp where ok: "mkdir_err env = None" "request_err env = None"
      "do_result env ?hs = Inr resp" "StatusCode resp = 200" "open_err env = None"
      by blast
    from main [OF ok] ok show ?thesis by auto
  next
    case False
    from other [OF False] False show ?thesis by auto
  qed
qed

theorem DownloadFile_not_atomic_witness:
  "fst (DownloadFile ''http://h/f'' ''/d/f'' True env_midfail [''/d/f'' \<mapsto> ''old''])
     = Some (External ''unexpected EOF'')
   \<and> fst (snd (DownloadFile ''http://h/f'' ''/d/f'' True env_midfail [''/d/f'' \<mapsto> ''old'']))
        ''/d/f'' = Some ''hello''
   \<and> fst (snd (DownloadFile ''http://h/f'' ''/d/f'' True env_midfail [''/d/f'' \<mapsto> ''old'']))
        ''/d/f.tmp'' = None
   \<and> filter is_Rename
        (snd (snd (DownloadFile ''http://h/f'' ''/d/f'' True env_midfail [''/d/f'' \<mapsto> ''old''])))
      = []
   \<and> fst (DownloadFile ''http://h/f'' ''/d/f'' True (env_status 206) [''/d/f'' \<mapsto> ''old''])
     = Some (HTTPError 206)"
proof -
  let ?fs = "[''/d/f'' \<mapsto> ''old'']"
  let ?D = "DownloadFile ''http://h/f'' ''/d/f'' True env_midfail ?fs"
  let ?E = "DownloadFile ''http://h/f'' ''/d/f'' True (env_status 206) ?fs"
  let ?body = "Next (chunk_at ''hello'' 150000000)
                 (Last (chunk_at [] 160000000) (ReadError (External ''unexpected EOF'')))"
  have d1: "?D = (fst ?D, fst (snd ?D), snd (snd ?D))" by simp
  have e1: "?E = (fst ?E, fst (snd ?E), snd (snd ?E))" by simp
  have a: "fst ?D = Some (External ''unexpected EOF'')" by code_simp
  have t: "fst (snd ?D) ''/d/f.tmp'' = None" by code_simp
  have ok: "mkdir_err env_midfail = None \<and> request_err env_midfail = None
      \<and> do_result env_midfail [(''Accept'', ''*/*'')]
          = Inr \<lparr>StatusCode = 200, ContentLength = 10, Body = ?body\<rparr>"
    by (simp add: env_midfail_def)
  have ok2: "mkdir_err (env_status 206) = None \<and> request_err (env_status 206) = None
      \<and> do_result (env_status 206) [(''Accept'', ''*/*'')]
          = Inr \<lparr>StatusCode = 206, ContentLength = 0, Body = Last (chunk_at [] 0) EOF\<rparr>"
    by (simp add: env_status_def)
  from DownloadFile_not_atomic [OF d1] ok
  have "fst (snd ?D) ''/d/f'' = Some ''hello''" "filter is_Rename (snd (snd ?D)) = []"
    by (simp_all add: env_midfail_def chunk_at_def)
  moreover from DownloadFile_not_atomic [OF e1] ok2
  have "fst ?E = Some (HTTPError 206)" by simp
  ultimately show ?thesis using a t by simp
qed

end
